theory Spec2Isabelle
  imports Main "HOL-Library.Word" "HOL-Library.Char_ord" "HOL-Library.List_Lexorder"
    "HOL-Library.Multiset"
begin

unbundle bit_operations_syntax

section \<open>Identifier Validator (utils: isValidUID, middleware: validateScanRequest)\<close>

text \<open>
  The source tests the identifier against the regular expression
  \<^verbatim>\<open>/^[A-Za-z0-9]{8,16}$/\<close>. The character class is three code ranges; the
  quantified class between the two anchors is matched by the recursive matcher
  \<open>rep_to_end\<close>: it consumes one character of the class per step, counts the minimum and
  the maximum down, and the end anchor (no \<open>m\<close> flag: end of input only) succeeds once the
  minimum is used up.
\<close>

definition uid_class :: "char \<Rightarrow> bool" where
  "uid_class c \<longleftrightarrow>
     (let n = (of_char c :: nat)
      in (65 \<le> n \<and> n \<le> 90) \<or> (97 \<le> n \<and> n \<le> 122) \<or> (48 \<le> n \<and> n \<le> 57))"

fun rep_to_end :: "(char \<Rightarrow> bool) \<Rightarrow> nat \<Rightarrow> nat \<Rightarrow> string \<Rightarrow> bool" where
  "rep_to_end p lo hi [] = (lo = 0)"
| "rep_to_end p lo hi (c # cs) = (0 < hi \<and> p c \<and> rep_to_end p (lo - 1) (hi - 1) cs)"

definition isValidUID :: "string \<Rightarrow> bool" where
  "isValidUID uid = rep_to_end uid_class 8 16 uid"

text \<open>The words of the specification: ASCII letters and digits, written out.\<close>

definition ascii_letters_digits :: "char set" where
  "ascii_letters_digits =
     set ''ABCDEFGHIJKLMNOPQRSTUVWXYZabcdefghijklmnopqrstuvwxyz0123456789''"

text \<open>
  The request body of the scan endpoint: both fields may be missing. An empty string is
  falsy in the source and is reported as missing.
\<close>

record scan_body =
  body_uid :: "string option"
  body_campaign_id :: "string option"

datatype validation_error = MISSING_UID | MISSING_CAMPAIGN_ID | INVALID_UID_FORMAT

definition falsy_str :: "string option \<Rightarrow> bool" where
  "falsy_str v = (case v of None \<Rightarrow> True | Some s \<Rightarrow> s = [])"

definition validateScanRequest :: "scan_body \<Rightarrow> validation_error option" where
  "validateScanRequest b =
     (if falsy_str (body_uid b) then Some MISSING_UID
      else if falsy_str (body_campaign_id b) then Some MISSING_CAMPAIGN_ID
      else if \<not> isValidUID (the (body_uid b)) then Some INVALID_UID_FORMAT
      else None)"

section \<open>Integrity Codec (utils: generateAEIChecksum, verifyAEIChecksum)\<close>

text \<open>
  The source calls Node's \<^verbatim>\<open>crypto.createHmac('sha256', secretKey).update(data).digest('hex')\<close>.
  The library is modelled here by SHA-256 (FIPS 180-4) on 32-bit words, HMAC (RFC 2104)
  with the 64-byte block of SHA-256, and lower-case hexadecimal encoding. A string is the
  list of its UTF-8 bytes, which is what \<open>update\<close> hashes and what a string key is
  turned into.
\<close>

type_synonym byte = "8 word"
type_synonym u32 = "32 word"
type_synonym sha_state = "u32 \<times> u32 \<times> u32 \<times> u32 \<times> u32 \<times> u32 \<times> u32 \<times> u32"

text \<open>
  The round constants are the first 32 bits of the fractional parts of the cube roots of
  the first 64 primes, the initial state those of the square roots of the first 8.
\<close>

definition K256 :: "u32 list" where
  "K256 =
    [1116352408, 1899447441, 3049323471, 3921009573, 961987163, 1508970993,
     2453635748, 2870763221, 3624381080, 310598401, 607225278, 1426881987,
     1925078388, 2162078206, 2614888103, 3248222580, 3835390401, 4022224774,
     264347078, 604807628, 770255983, 1249150122, 1555081692, 1996064986,
     2554220882, 2821834349, 2952996808, 3210313671, 3336571891, 3584528711,
     113926993, 338241895, 666307205, 773529912, 1294757372, 1396182291,
     1695183700, 1986661051, 2177026350, 2456956037, 2730485921, 2820302411,
     3259730800, 3345764771, 3516065817, 3600352804, 4094571909, 275423344,
     430227734, 506948616, 659060556, 883997877, 958139571, 1322822218,
     1537002063, 1747873779, 1955562222, 2024104815, 2227730452, 2361852424,
     2428436474, 2756734187, 3204031479, 3329325298]"

definition H256 :: sha_state where
  "H256 = (1779033703, 3144134277, 1013904242, 2773480762,
           1359893119, 2600822924, 528734635, 1541459225)"

definition ch :: "u32 \<Rightarrow> u32 \<Rightarrow> u32 \<Rightarrow> u32" where
  "ch x y z = (x AND y) XOR (NOT x AND z)"

definition maj :: "u32 \<Rightarrow> u32 \<Rightarrow> u32 \<Rightarrow> u32" where
  "maj x y z = (x AND y) XOR (x AND z) XOR (y AND z)"

definition bsig0 :: "u32 \<Rightarrow> u32" where
  "bsig0 x = word_rotr 2 x XOR word_rotr 13 x XOR word_rotr 22 x"

definition bsig1 :: "u32 \<Rightarrow> u32" where
  "bsig1 x = word_rotr 6 x XOR word_rotr 11 x XOR word_rotr 25 x"

definition ssig0 :: "u32 \<Rightarrow> u32" where
  "ssig0 x = word_rotr 7 x XOR word_rotr 18 x XOR drop_bit 3 x"

definition ssig1 :: "u32 \<Rightarrow> u32" where
  "ssig1 x = word_rotr 17 x XOR word_rotr 19 x XOR drop_bit 10 x"

fun schedule :: "nat \<Rightarrow> u32 list \<Rightarrow> u32 list" where
  "schedule 0 ws = ws"
| "schedule (Suc n) ws =
     (let t = length ws
      in schedule n (ws @ [ssig1 (ws ! (t - 2)) + ws ! (t - 7) + ssig0 (ws ! (t - 15)) + ws ! (t - 16)]))"

fun sha_round :: "sha_state \<Rightarrow> u32 \<times> u32 \<Rightarrow> sha_state" where
  "sha_round (a, b, c, d, e, f, g, h) (k, w) =
     (let t1 = h + bsig1 e + ch e f g + k + w;
          t2 = bsig0 a + maj a b c
      in (t1 + t2, a, b, c, d + t1, e, f, g))"

fun add_state :: "sha_state \<Rightarrow> sha_state \<Rightarrow> sha_state" where
  "add_state (a, b, c, d, e, f, g, h) (a', b', c', d', e', f', g', h') =
     (a + a', b + b', c + c', d + d', e + e', f + f', g + g', h + h')"

definition compress :: "sha_state \<Rightarrow> u32 list \<Rightarrow> sha_state" where
  "compress hs block = add_state hs (foldl sha_round hs (zip K256 (schedule 48 block)))"

definition be32 :: "byte list \<Rightarrow> u32" where
  "be32 bs = foldl (\<lambda>acc b. push_bit 8 acc OR ucast b) 0 bs"

fun words_of :: "nat \<Rightarrow> byte list \<Rightarrow> u32 list" where
  "words_of 0 bs = []"
| "words_of (Suc n) bs = be32 (take 4 bs) # words_of n (drop 4 bs)"

fun split_blocks :: "nat \<Rightarrow> byte list \<Rightarrow> byte list list" where
  "split_blocks 0 bs = []"
| "split_blocks (Suc n) bs = take 64 bs # split_blocks n (drop 64 bs)"

definition be64_bytes :: "64 word \<Rightarrow> byte list" where
  "be64_bytes w = map (\<lambda>i. ucast (drop_bit (8 * (7 - i)) w)) [0..<8]"

definition be32_bytes :: "u32 \<Rightarrow> byte list" where
  "be32_bytes w = [ucast (drop_bit 24 w), ucast (drop_bit 16 w), ucast (drop_bit 8 w), ucast w]"

definition sha_pad :: "byte list \<Rightarrow> byte list" where
  "sha_pad m =
     m @ [0x80] @ replicate ((119 - length m mod 64) mod 64) 0 @ be64_bytes (of_nat (8 * length m))"

fun state_bytes :: "sha_state \<Rightarrow> byte list" where
  "state_bytes (a, b, c, d, e, f, g, h) =
     concat (map be32_bytes [a, b, c, d, e, f, g, h])"

definition sha256 :: "byte list \<Rightarrow> byte list" where
  "sha256 m =
     (let p = sha_pad m
      in state_bytes
           (foldl compress H256 (map (words_of 16) (split_blocks (length p div 64) p))))"

definition hmac_key_block :: "byte list \<Rightarrow> byte list" where
  "hmac_key_block key =
     (let k = (if 64 < length key then sha256 key else key)
      in k @ replicate (64 - length k) 0)"

definition hmac_sha256 :: "byte list \<Rightarrow> byte list \<Rightarrow> byte list" where
  "hmac_sha256 key msg =
     (let kb = hmac_key_block key
      in sha256 (map (\<lambda>b. b XOR 0x5c) kb @ sha256 (map (\<lambda>b. b XOR 0x36) kb @ msg)))"

definition hex_digit :: "nat \<Rightarrow> char" where
  "hex_digit n = ''0123456789abcdef'' ! (n mod 16)"

definition hex_encode :: "byte list \<Rightarrow> string" where
  "hex_encode bs = concat (map (\<lambda>b. [hex_digit (unat (drop_bit 4 b)), hex_digit (unat (b AND 15))]) bs)"

definition utf8 :: "string \<Rightarrow> byte list" where
  "utf8 s = map of_char s"

definition generateAEIChecksum :: "string \<Rightarrow> string \<Rightarrow> string \<Rightarrow> string \<Rightarrow> string" where
  "generateAEIChecksum uid timestamp campaignId secretKey =
     (let data = uid @ timestamp @ campaignId
      in hex_encode (hmac_sha256 (utf8 secretKey) (utf8 data)))"

text \<open>
  \<^verbatim>\<open>Buffer.from(s, 'hex')\<close> decodes pairs of hexadecimal digits from the left and stops at
  the first pair that is not two hexadecimal digits; a trailing single character is
  dropped. \<^verbatim>\<open>crypto.timingSafeEqual\<close> throws a RangeError when the two buffers differ in
  byte length and compares them otherwise.
\<close>

definition hex_val :: "char \<Rightarrow> nat option" where
  "hex_val c =
     (let n = (of_char c :: nat)
      in if 48 \<le> n \<and> n \<le> 57 then Some (n - 48)
         else if 97 \<le> n \<and> n \<le> 102 then Some (n - 87)
         else if 65 \<le> n \<and> n \<le> 70 then Some (n - 55)
         else None)"

fun hex_decode :: "string \<Rightarrow> byte list" where
  "hex_decode (a # b # rest) =
     (case (hex_val a, hex_val b) of
        (Some x, Some y) \<Rightarrow> of_nat (16 * x + y) # hex_decode rest
      | _ \<Rightarrow> [])"
| "hex_decode _ = []"

datatype js_error = RangeError_byte_length

definition timingSafeEqual :: "byte list \<Rightarrow> byte list \<Rightarrow> js_error + bool" where
  "timingSafeEqual a b =
     (if length a \<noteq> length b then Inl RangeError_byte_length else Inr (a = b))"

definition verifyAEIChecksum ::
  "string \<Rightarrow> string \<Rightarrow> string \<Rightarrow> string \<Rightarrow> string \<Rightarrow> js_error + bool" where
  "verifyAEIChecksum uid timestamp campaignId providedChecksum secretKey =
     (let expectedChecksum = generateAEIChecksum uid timestamp campaignId secretKey
      in timingSafeEqual (hex_decode expectedChecksum) (hex_decode providedChecksum))"

text \<open>The words of the claim about verification: a well-formed checksum string.\<close>

definition is_hex_char :: "char \<Rightarrow> bool" where
  "is_hex_char c \<longleftrightarrow> c \<in> set ''0123456789abcdefABCDEF''"

definition well_formed_checksum :: "string \<Rightarrow> bool" where
  "well_formed_checksum s \<longleftrightarrow> length s = 64 \<and> list_all is_hex_char s"

section \<open>Cooldown test (utils: isWithinCooldown)\<close>

text \<open>
  \<open>moment(lastScanTime)\<close> parses the stored string; the parser is the library's and is
  a parameter here, giving the instant in milliseconds or \<open>None\<close> for an invalid date
  (the difference is then NaN and every comparison with it is false). \<open>moment()\<close> is the
  clock, the parameter \<open>now\<close>. \<open>diff(_, 'minutes')\<close> divides the difference by 60000
  and truncates towards zero.
\<close>

definition absFloor_div :: "int \<Rightarrow> int \<Rightarrow> int" where
  "absFloor_div a b = (if a < 0 then - ((- a) div b) else a div b)"

definition isWithinCooldown ::
  "(string \<Rightarrow> int option) \<Rightarrow> int \<Rightarrow> string option \<Rightarrow> int \<Rightarrow> bool" where
  "isWithinCooldown moment_ms now lastScanTime cooldownMinutes =
     (if falsy_str lastScanTime then False
      else case moment_ms (the lastScanTime) of
             None \<Rightarrow> False
           | Some lastScan \<Rightarrow> absFloor_div (now - lastScan) 60000 < cooldownMinutes)"

section \<open>Configuration (config: antifraud)\<close>

text \<open>
  \<^verbatim>\<open>parseInt(process.env.X) || d\<close>: the parsed value is an integer or NaN (\<open>None\<close> here,
  also for an unset variable); NaN and 0 are falsy and give the default.
\<close>

record antifraud =
  cooldownMinutes :: int
  dailyScanLimit :: int

definition or_default :: "int option \<Rightarrow> int \<Rightarrow> int" where
  "or_default parsed d = (case parsed of None \<Rightarrow> d | Some n \<Rightarrow> if n = 0 then d else n)"

definition load_antifraud :: "int option \<Rightarrow> int option \<Rightarrow> antifraud" where
  "load_antifraud env_cooldown env_limit =
     \<lparr>cooldownMinutes = or_default env_cooldown 5, dailyScanLimit = or_default env_limit 100\<rparr>"

section \<open>Dates (the runtime's Date and toISOString)\<close>

text \<open>
  A \<open>Date\<close> is represented by its UTC fields. \<open>time_value\<close> is its time value in
  milliseconds since the epoch, by the day arithmetic of ECMA-262 (DayFromYear, the
  month table of MonthFromTime). \<open>toISOString\<close> writes the fields zero-padded; a year
  outside 0..9999 is written in the expanded form, a sign and six digits.
\<close>

record js_date =
  year :: int
  month :: nat
  day :: nat
  hours :: nat
  minutes :: nat
  seconds :: nat
  millis :: nat

definition in_leap_year :: "int \<Rightarrow> bool" where
  "in_leap_year y \<longleftrightarrow> (y mod 4 = 0 \<and> y mod 100 \<noteq> 0) \<or> y mod 400 = 0"

definition days_in_year :: "int \<Rightarrow> int" where
  "days_in_year y = (if in_leap_year y then 366 else 365)"

definition day_from_year :: "int \<Rightarrow> int" where
  "day_from_year y =
     365 * (y - 1970) + (y - 1969) div 4 - (y - 1901) div 100 + (y - 1601) div 400"

definition month_lengths :: "bool \<Rightarrow> nat list" where
  "month_lengths leap = [31, if leap then 29 else 28, 31, 30, 31, 30, 31, 31, 30, 31, 30, 31]"

definition days_in_month :: "int \<Rightarrow> nat \<Rightarrow> nat" where
  "days_in_month y m = month_lengths (in_leap_year y) ! (m - 1)"

definition month_start :: "int \<Rightarrow> nat \<Rightarrow> nat" where
  "month_start y m = sum_list (take (m - 1) (month_lengths (in_leap_year y)))"

definition valid_date :: "js_date \<Rightarrow> bool" where
  "valid_date d \<longleftrightarrow>
     1 \<le> month d \<and> month d \<le> 12 \<and> 1 \<le> day d \<and> day d \<le> days_in_month (year d) (month d) \<and>
     hours d < 24 \<and> minutes d < 60 \<and> seconds d < 60 \<and> millis d < 1000"

definition day_number :: "js_date \<Rightarrow> int" where
  "day_number d = day_from_year (year d) + int (month_start (year d) (month d)) + int (day d) - 1"

definition time_in_day :: "js_date \<Rightarrow> int" where
  "time_in_day d =
     int (hours d) * 3600000 + int (minutes d) * 60000 + int (seconds d) * 1000 + int (millis d)"

definition time_value :: "js_date \<Rightarrow> int" where
  "time_value d = day_number d * 86400000 + time_in_day d"

definition digit_char :: "nat \<Rightarrow> char" where
  "digit_char n = ''0123456789'' ! (n mod 10)"

fun pad :: "nat \<Rightarrow> nat \<Rightarrow> string" where
  "pad 0 n = []"
| "pad (Suc k) n = pad k (n div 10) @ [digit_char n]"

definition year_string :: "int \<Rightarrow> string" where
  "year_string y =
     (if 0 \<le> y \<and> y \<le> 9999 then pad 4 (nat y)
      else (if y < 0 then ''-'' else ''+'') @ pad 6 (nat \<bar>y\<bar>))"

definition toISOString :: "js_date \<Rightarrow> string" where
  "toISOString d =
     year_string (year d) @ ''-'' @ pad 2 (month d) @ ''-'' @ pad 2 (day d) @ ''T'' @
     pad 2 (hours d) @ '':'' @ pad 2 (minutes d) @ '':'' @ pad 2 (seconds d) @ ''.'' @
     pad 3 (millis d) @ ''Z''"

text \<open>\<^verbatim>\<open>s.split('T')[0]\<close>: the part of the string before the first \<open>T\<close>.\<close>

definition split_T_0 :: "string \<Rightarrow> string" where
  "split_T_0 s = takeWhile (\<lambda>c. c \<noteq> CHR ''T'') s"

section \<open>Scan Ledger (database: scans table, insertScan, getScans, getLastScanTime, getDailyScanCount, getStats)\<close>

text \<open>
  A row of the \<open>scans\<close> table. The columns \<open>id\<close> (the position in the table) and
  \<open>created_at\<close> enter no condition or ordering of the source's statements and are left
  out. All columns are declared NOT NULL; the fields are strings, so a row always has
  them.
\<close>

record scan =
  scan_id :: string
  uid :: string
  campaign_id :: string
  timestamp :: string
  checksum :: string
  verified :: bool

text \<open>
  The filters of \<open>getScans\<close>. Each is used when its value is truthy: a non-empty string,
  a number other than 0 and NaN (\<open>None\<close> stands for a missing field and for NaN).
\<close>

record filters =
  f_uid :: "string option"
  f_campaign_id :: "string option"
  f_start_date :: "string option"
  f_end_date :: "string option"
  f_limit :: "int option"
  f_offset :: "int option"

definition no_filters :: filters where
  "no_filters =
     \<lparr>f_uid = None, f_campaign_id = None, f_start_date = None, f_end_date = None,
      f_limit = None, f_offset = None\<rparr>"

definition truthy_str :: "string option \<Rightarrow> bool" where
  "truthy_str v = (\<not> falsy_str v)"

definition truthy_num :: "int option \<Rightarrow> bool" where
  "truthy_num v = (case v of None \<Rightarrow> False | Some n \<Rightarrow> n \<noteq> 0)"

text \<open>
  The database handle: the rows in insertion order, the statements on which the driver
  currently reports an I/O failure, the engine's \<open>DATE()\<close> function (the date part
  of a time string, or NULL), and the engine's choice of access path: \<open>read_order f rows\<close>
  is the sequence in which the plan for the query with filters \<open>f\<close> reads the table
  \<open>rows\<close>. SQL leaves that choice to the engine, and it shows in a result only as the
  order of rows that \<open>ORDER BY\<close> does not separate.
\<close>

datatype stmt =
  InsertScan | SelectScans | SelectLastScanTime | SelectDailyScanCount
  | CountTotal | CountToday | CountYesterday | CountUniqueUids | SelectLastScan

datatype db_error = SQLITE_IOERR | SQLITE_CONSTRAINT_UNIQUE | SQLITE_ERROR_syntax

record sqlite =
  scans :: "scan list"
  io_fault :: "stmt \<Rightarrow> bool"
  sql_DATE :: "string \<Rightarrow> string option"
  read_order :: "filters \<Rightarrow> scan list \<Rightarrow> scan list"

text \<open>
  \<open>INSERT INTO scans\<close>: the column \<open>scan_id\<close> is declared UNIQUE, so the statement
  fails when a row with that \<open>scan_id\<close> exists (the index is looked up before
  anything is written); otherwise the row is appended.
\<close>

definition insertScan :: "sqlite \<Rightarrow> scan \<Rightarrow> db_error + sqlite" where
  "insertScan db scanData =
     (if scan_id scanData \<in> set (map scan_id (scans db)) then Inl SQLITE_CONSTRAINT_UNIQUE
      else if io_fault db InsertScan then Inl SQLITE_IOERR
      else Inr (db\<lparr>scans := scans db @ [scanData]\<rparr>))"

text \<open>
  \<open>ORDER BY timestamp DESC\<close>: text values are compared byte by byte, and rows with equal
  timestamps stay in the order in which they reach the sort. \<open>in_read_order\<close> puts the
  rows of a query into the order in which the engine's plan reads them (a row the plan's
  sequence does not list comes after those it lists).
\<close>

definition order_by_timestamp_desc :: "scan list \<Rightarrow> scan list" where
  "order_by_timestamp_desc rows = rev (sort_key timestamp (rev rows))"

definition read_position :: "scan list \<Rightarrow> scan \<Rightarrow> nat" where
  "read_position reads r = length (takeWhile (\<lambda>x. x \<noteq> r) reads)"

definition in_read_order :: "sqlite \<Rightarrow> filters \<Rightarrow> scan list \<Rightarrow> scan list" where
  "in_read_order db f rows = sort_key (read_position (read_order db f (scans db))) rows"

text \<open>
  The comparisons \<open>timestamp >= ?\<close> and \<open>timestamp <= ?\<close>. The column is declared
  DATETIME, which gives it numeric affinity: the engine reads a bound parameter that is a
  well-formed number (spaces, sign, digits with an optional point, optional exponent) as
  that number, and every number sorts before every text. Any other bound is compared
  with the stored text byte by byte. The stored timestamps are taken to be text: the
  scan endpoint writes no other, and a row whose timestamp is itself a well-formed number
  is outside this model.
\<close>

definition is_space :: "char \<Rightarrow> bool" where
  "is_space c \<longleftrightarrow> c \<in> set [CHR '' '', CHR 0x09, CHR 0x0A, CHR 0x0B, CHR 0x0C, CHR 0x0D]"

definition is_digit :: "char \<Rightarrow> bool" where
  "is_digit c \<longleftrightarrow> c \<in> set ''0123456789''"

definition skip_sign :: "string \<Rightarrow> string" where
  "skip_sign s =
     (case s of [] \<Rightarrow> [] | c # r \<Rightarrow> if c = CHR ''+'' \<or> c = CHR ''-'' then r else s)"

definition numeric_literal :: "string \<Rightarrow> bool" where
  "numeric_literal s =
     (let s1 = skip_sign (dropWhile is_space s);
          int_part = takeWhile is_digit s1;
          s2 = dropWhile is_digit s1;
          has_point = (s2 \<noteq> [] \<and> hd s2 = CHR ''.'');
          frac_part = (if has_point then takeWhile is_digit (tl s2) else []);
          s3 = (if has_point then dropWhile is_digit (tl s2) else s2);
          has_exp = (s3 \<noteq> [] \<and> (hd s3 = CHR ''e'' \<or> hd s3 = CHR ''E''));
          exp_part = (if has_exp then takeWhile is_digit (skip_sign (tl s3)) else []);
          s4 = (if has_exp then dropWhile is_digit (skip_sign (tl s3)) else s3)
      in (int_part \<noteq> [] \<or> frac_part \<noteq> []) \<and> (if has_exp then exp_part \<noteq> [] else True)
         \<and> dropWhile is_space s4 = [])"

definition numeric_char :: "char \<Rightarrow> bool" where
  "numeric_char c \<longleftrightarrow> is_space c \<or> is_digit c \<or> c \<in> set ''+-.eE''"

definition sql_ge :: "string \<Rightarrow> string \<Rightarrow> bool" where
  "sql_ge stored bound = (if numeric_literal bound then True else bound \<le> stored)"

definition sql_le :: "string \<Rightarrow> string \<Rightarrow> bool" where
  "sql_le stored bound = (if numeric_literal bound then False else stored \<le> bound)"

definition where_clause :: "filters \<Rightarrow> scan \<Rightarrow> bool" where
  "where_clause f r \<longleftrightarrow>
     (if truthy_str (f_uid f) then uid r = the (f_uid f) else True) \<and>
     (if truthy_str (f_campaign_id f) then campaign_id r = the (f_campaign_id f) else True) \<and>
     (if truthy_str (f_start_date f) then sql_ge (timestamp r) (the (f_start_date f)) else True) \<and>
     (if truthy_str (f_end_date f) then sql_le (timestamp r) (the (f_end_date f)) else True)"

text \<open>
  \<open>LIMIT n OFFSET m\<close>: a negative limit is no limit and a negative offset is 0. The
  source adds \<open>OFFSET ?\<close> also when it has added no \<open>LIMIT ?\<close>; the engine's grammar
  has no OFFSET without LIMIT and the statement then fails to prepare.
\<close>

definition sql_limit_offset :: "int option \<Rightarrow> int option \<Rightarrow> 'a list \<Rightarrow> 'a list" where
  "sql_limit_offset lim off rows =
     (let skipped = (case off of None \<Rightarrow> rows | Some m \<Rightarrow> drop (nat m) rows)
      in case lim of None \<Rightarrow> skipped
         | Some n \<Rightarrow> if n < 0 then skipped else take (nat n) skipped)"

definition getScans :: "sqlite \<Rightarrow> filters \<Rightarrow> db_error + scan list" where
  "getScans db f =
     (let lim = (if truthy_num (f_limit f) then f_limit f else None);
          off = (if truthy_num (f_offset f) then f_offset f else None)
      in if lim = None \<and> off \<noteq> None then Inl SQLITE_ERROR_syntax
         else if io_fault db SelectScans then Inl SQLITE_IOERR
         else Inr (sql_limit_offset lim off
                     (order_by_timestamp_desc
                        (in_read_order db f (filter (where_clause f) (scans db))))))"

text \<open>
  \<open>getLastScanTime\<close> selects the timestamp of the first row alone, which is the same
  whichever of the most recent rows of the identifier comes first; so does the last of
  the statements of \<open>getStats\<close>.
\<close>

definition getLastScanTime :: "sqlite \<Rightarrow> string \<Rightarrow> db_error + string option" where
  "getLastScanTime db u =
     (if io_fault db SelectLastScanTime then Inl SQLITE_IOERR
      else Inr (case order_by_timestamp_desc (filter (\<lambda>r. uid r = u) (scans db)) of
                  [] \<Rightarrow> None
                | row # _ \<Rightarrow> Some (timestamp row)))"

definition getDailyScanCount :: "sqlite \<Rightarrow> string \<Rightarrow> string \<Rightarrow> db_error + int" where
  "getDailyScanCount db u date =
     (if io_fault db SelectDailyScanCount then Inl SQLITE_IOERR
      else Inr (int (length (filter (\<lambda>r. uid r = u \<and> sql_DATE db (timestamp r) = Some date)
                                    (scans db)))))"

text \<open>
  \<open>getStats\<close> runs five statements; the \<open>catch\<close> around each replaces a failure by
  0 (by null for \<open>lastScan\<close>), so the function itself never fails.
\<close>

record stats =
  totalScans :: int
  todayScans :: int
  yesterdayScans :: int
  uniqueUids :: int
  lastScan :: "string option"

definition count_on :: "sqlite \<Rightarrow> string \<Rightarrow> int" where
  "count_on db date =
     int (length (filter (\<lambda>r. sql_DATE db (timestamp r) = Some date) (scans db)))"

definition getStats :: "sqlite \<Rightarrow> js_date \<Rightarrow> js_date \<Rightarrow> stats" where
  "getStats db now_date day_before =
     (let today = split_T_0 (toISOString now_date);
          yesterday = split_T_0 (toISOString day_before)
      in \<lparr>totalScans = (if io_fault db CountTotal then 0 else int (length (scans db))),
          todayScans = (if io_fault db CountToday then 0 else count_on db today),
          yesterdayScans = (if io_fault db CountYesterday then 0 else count_on db yesterday),
          uniqueUids =
            (if io_fault db CountUniqueUids then 0
             else int (length (remdups (map uid (scans db))))),
          lastScan =
            (if io_fault db SelectLastScan then None
             else case order_by_timestamp_desc (scans db) of
                    [] \<Rightarrow> None
                  | row # _ \<Rightarrow> Some (timestamp row))\<rparr>)"

section \<open>Fraud Policy Evaluator (middleware: antiFraudCheck)\<close>

text \<open>
  The outcomes of the middleware: \<open>Next\<close> passes the request on, the two 429 responses
  carry the fields of the source's JSON, and \<open>NextError\<close> is \<open>next(error)\<close>, the
  failure handed to the framework's error handling.
\<close>

datatype fraud_outcome =
  Next
  | COOLDOWN_ACTIVE int string
  | DAILY_LIMIT_EXCEEDED int int
  | NextError db_error

definition antiFraudCheck ::
  "antifraud \<Rightarrow> (string \<Rightarrow> int option) \<Rightarrow> sqlite \<Rightarrow> string \<Rightarrow> int \<Rightarrow> js_date \<Rightarrow> fraud_outcome"
  where
  "antiFraudCheck cfg moment_ms db u now now_date =
     (case getLastScanTime db u of
        Inl e \<Rightarrow> NextError e
      | Inr lastScanTime \<Rightarrow>
          if truthy_str lastScanTime
             \<and> isWithinCooldown moment_ms now lastScanTime (cooldownMinutes cfg)
          then COOLDOWN_ACTIVE (cooldownMinutes cfg) (the lastScanTime)
          else
            (let today = split_T_0 (toISOString now_date)
             in case getDailyScanCount db u today of
                  Inl e \<Rightarrow> NextError e
                | Inr dailyScanCount \<Rightarrow>
                    if dailyScanCount \<ge> dailyScanLimit cfg
                    then DAILY_LIMIT_EXCEEDED (dailyScanLimit cfg) dailyScanCount
                    else Next))"

section \<open>Routes (routes: POST /scan, GET /logs, GET /export/csv, GET /stats)\<close>

text \<open>
  What a request to the scan endpoint brings with it: the body, and the values the code
  reads from its environment while it runs, in the order it reads them: the clock in the
  cooldown test (\<open>moment()\<close>), the date for the daily count, the date that becomes the
  timestamp, the generated scan id (clock and random bytes), and the two dates of the
  count of today's scans.
\<close>

record scan_request =
  body :: scan_body
  t_moment :: int
  d_today :: js_date
  d_stamp :: js_date
  new_scan_id :: string
  d_from :: js_date
  d_to :: js_date

datatype scan_response =
  Created201 scan int int
  | Status400 validation_error
  | Status429 fraud_outcome
  | Status500 string
  | Unhandled db_error

definition scanRecord_of :: "string \<Rightarrow> scan_request \<Rightarrow> scan" where
  "scanRecord_of key rq =
     (let u = the (body_uid (body rq));
          c = the (body_campaign_id (body rq));
          ts = toISOString (d_stamp rq)
      in \<lparr>scan_id = new_scan_id rq, uid = u, campaign_id = c, timestamp = ts,
          checksum = generateAEIChecksum u ts c key, verified = True\<rparr>)"

definition total_filters :: filters where
  "total_filters = no_filters\<lparr>f_limit := Some 1000\<rparr>"

definition today_filters :: "scan_request \<Rightarrow> filters" where
  "today_filters rq =
     no_filters
       \<lparr>f_start_date := Some (split_T_0 (toISOString (d_from rq))),
        f_end_date := Some (split_T_0 (toISOString (d_to rq)) @ ''T23:59:59.999Z'')\<rparr>"

definition scan_handler :: "string \<Rightarrow> sqlite \<Rightarrow> scan_request \<Rightarrow> sqlite \<times> scan_response" where
  "scan_handler key db rq =
     (let scanRecord = scanRecord_of key rq
      in case insertScan db scanRecord of
           Inl e \<Rightarrow> (db, Status500 ''Failed to register scan'')
         | Inr db' \<Rightarrow>
             (case getScans db' total_filters of
                Inl e \<Rightarrow> (db', Status500 ''Failed to register scan'')
              | Inr totalScans' \<Rightarrow>
                  (case getScans db' (today_filters rq) of
                     Inl e \<Rightarrow> (db', Status500 ''Failed to register scan'')
                   | Inr todayScans' \<Rightarrow>
                       (db', Created201 scanRecord (int (length totalScans'))
                               (int (length todayScans'))))))"

text \<open>The middleware chain of the scan endpoint: validation, fraud check, handler.\<close>

definition post_scan ::
  "antifraud \<Rightarrow> string \<Rightarrow> (string \<Rightarrow> int option) \<Rightarrow> sqlite \<Rightarrow> scan_request
     \<Rightarrow> sqlite \<times> scan_response" where
  "post_scan cfg key moment_ms db rq =
     (case validateScanRequest (body rq) of
        Some e \<Rightarrow> (db, Status400 e)
      | None \<Rightarrow>
          (case antiFraudCheck cfg moment_ms db (the (body_uid (body rq))) (t_moment rq)
                  (d_today rq) of
             Next \<Rightarrow> scan_handler key db rq
           | NextError e \<Rightarrow> (db, Unhandled e)
           | rejection \<Rightarrow> (db, Status429 rejection)))"

text \<open>
  The read routes. The query of the log route has its \<open>limit\<close> and \<open>offset\<close> already
  defaulted (50 and 0) and passed through \<open>parseInt\<close> (\<open>None\<close> is NaN).
\<close>

datatype 'a read_response = Ok200 'a | Failed500 string

record logs_query =
  q_uid :: "string option"
  q_campaign_id :: "string option"
  q_start_date :: "string option"
  q_end_date :: "string option"
  q_limit :: "int option"
  q_offset :: "int option"

record pagination =
  total :: int
  has_more :: bool

definition keep_truthy :: "string option \<Rightarrow> string option" where
  "keep_truthy v = (if truthy_str v then v else None)"

definition logs_filters :: "logs_query \<Rightarrow> filters" where
  "logs_filters q =
     \<lparr>f_uid = keep_truthy (q_uid q), f_campaign_id = keep_truthy (q_campaign_id q),
      f_start_date = keep_truthy (q_start_date q), f_end_date = keep_truthy (q_end_date q),
      f_limit = q_limit q, f_offset = q_offset q\<rparr>"

definition get_logs :: "sqlite \<Rightarrow> logs_query \<Rightarrow> (scan list \<times> pagination) read_response" where
  "get_logs db q =
     (let f = logs_filters q
      in case getScans db f of
           Inl e \<Rightarrow> Failed500 ''Failed to retrieve logs''
         | Inr rows \<Rightarrow>
             (case getScans db (f\<lparr>f_limit := None, f_offset := None\<rparr>) of
                Inl e \<Rightarrow> Failed500 ''Failed to retrieve logs''
              | Inr totalScans' \<Rightarrow>
                  Ok200 (rows,
                    \<lparr>total = int (length totalScans'),
                     has_more =
                       (case (q_limit q, q_offset q) of
                          (Some l, Some off) \<Rightarrow> int (length totalScans') > off + l
                        | _ \<Rightarrow> False)\<rparr>)))"

definition csv_row :: "scan \<Rightarrow> string" where
  "csv_row r =
     scan_id r @ '','' @ uid r @ '','' @ campaign_id r @ '','' @ timestamp r @ '','' @
     checksum r @ '','' @ (if verified r then ''1'' else ''0'')"

fun join_lines :: "string list \<Rightarrow> string" where
  "join_lines [] = []"
| "join_lines [l] = l"
| "join_lines (l # ls) = l @ [CHR 0x0A] @ join_lines ls"

definition export_csv ::
  "sqlite \<Rightarrow> string option \<Rightarrow> string option \<Rightarrow> js_date \<Rightarrow> string read_response" where
  "export_csv db date campaign now_date =
     (let targetDate = (if truthy_str date then the date else split_T_0 (toISOString now_date));
          f = no_filters
                \<lparr>f_start_date := Some (targetDate @ ''T00:00:00.000Z''),
                 f_end_date := Some (targetDate @ ''T23:59:59.999Z''),
                 f_campaign_id := keep_truthy campaign\<rparr>
      in case getScans db f of
           Inl e \<Rightarrow> Failed500 ''Failed to export CSV''
         | Inr rows \<Rightarrow>
             Ok200 (''Scan ID,UID,Campaign ID,Timestamp,Checksum,Verified'' @ [CHR 0x0A] @
                    join_lines (map csv_row rows)))"

definition get_stats :: "sqlite \<Rightarrow> js_date \<Rightarrow> js_date \<Rightarrow> stats read_response" where
  "get_stats db now_date day_before = Ok200 (getStats db now_date day_before)"

section \<open>Two requests in flight\<close>

text \<open>
  The process runs one piece of code at a time and switches between requests where the
  source awaits the database. A request is therefore a sequence of steps, one per
  awaited statement; between two steps of one request, steps of another may run.
  \<open>start_request\<close> is the synchronous validation; \<open>step_request\<close> runs the statement the
  request is waiting for and the code up to the next \<open>await\<close>.
\<close>

datatype pc =
  AwaitLastScanTime | AwaitDailyScanCount | AwaitInsert
  | AwaitTotal | AwaitToday int | Done scan_response

definition start_request :: "scan_request \<Rightarrow> pc" where
  "start_request rq =
     (case validateScanRequest (body rq) of
        Some e \<Rightarrow> Done (Status400 e)
      | None \<Rightarrow> AwaitLastScanTime)"

fun step_request ::
  "antifraud \<Rightarrow> string \<Rightarrow> (string \<Rightarrow> int option) \<Rightarrow> scan_request \<Rightarrow> sqlite \<times> pc
     \<Rightarrow> sqlite \<times> pc" where
  "step_request cfg key moment_ms rq (db, AwaitLastScanTime) =
     (case getLastScanTime db (the (body_uid (body rq))) of
        Inl e \<Rightarrow> (db, Done (Unhandled e))
      | Inr lastScanTime \<Rightarrow>
          if truthy_str lastScanTime
             \<and> isWithinCooldown moment_ms (t_moment rq) lastScanTime (cooldownMinutes cfg)
          then (db, Done (Status429 (COOLDOWN_ACTIVE (cooldownMinutes cfg) (the lastScanTime))))
          else (db, AwaitDailyScanCount))"
| "step_request cfg key moment_ms rq (db, AwaitDailyScanCount) =
     (case getDailyScanCount db (the (body_uid (body rq)))
             (split_T_0 (toISOString (d_today rq))) of
        Inl e \<Rightarrow> (db, Done (Unhandled e))
      | Inr dailyScanCount \<Rightarrow>
          if dailyScanCount \<ge> dailyScanLimit cfg
          then (db, Done (Status429 (DAILY_LIMIT_EXCEEDED (dailyScanLimit cfg) dailyScanCount)))
          else (db, AwaitInsert))"
| "step_request cfg key moment_ms rq (db, AwaitInsert) =
     (case insertScan db (scanRecord_of key rq) of
        Inl e \<Rightarrow> (db, Done (Status500 ''Failed to register scan''))
      | Inr db' \<Rightarrow> (db', AwaitTotal))"
| "step_request cfg key moment_ms rq (db, AwaitTotal) =
     (case getScans db total_filters of
        Inl e \<Rightarrow> (db, Done (Status500 ''Failed to register scan''))
      | Inr totalScans' \<Rightarrow> (db, AwaitToday (int (length totalScans'))))"
| "step_request cfg key moment_ms rq (db, AwaitToday n) =
     (case getScans db (today_filters rq) of
        Inl e \<Rightarrow> (db, Done (Status500 ''Failed to register scan''))
      | Inr todayScans' \<Rightarrow>
          (db, Done (Created201 (scanRecord_of key rq) n (int (length todayScans')))))"
| "step_request cfg key moment_ms rq (db, Done r) = (db, Done r)"





section \<open>The specification's words, for comparison\<close>

text \<open>
  The ledger over its lifetime: a sequence of append attempts, each either taking effect
  or failing and leaving the ledger as it was.
\<close>

fun append_all :: "sqlite \<Rightarrow> scan list \<Rightarrow> sqlite" where
  "append_all db [] = db"
| "append_all db (r # rs) =
     (case insertScan db r of Inl e \<Rightarrow> append_all db rs | Inr db' \<Rightarrow> append_all db' rs)"

text \<open>
  The query as the specification words it: every supplied filter restricts the result,
  the range bounds are inclusive, the result is ordered by timestamp descending, and
  offset and limit are applied after that. The specification says nothing on the order
  of records with equal timestamps: \<open>ordered_matches f table rows\<close> holds of every
  arrangement \<open>rows\<close> of the matching records that descends by timestamp.
\<close>

definition supplied_match :: "filters \<Rightarrow> scan \<Rightarrow> bool" where
  "supplied_match f r \<longleftrightarrow>
     (case f_uid f of None \<Rightarrow> True | Some v \<Rightarrow> uid r = v) \<and>
     (case f_campaign_id f of None \<Rightarrow> True | Some v \<Rightarrow> campaign_id r = v) \<and>
     (case f_start_date f of None \<Rightarrow> True | Some v \<Rightarrow> v \<le> timestamp r) \<and>
     (case f_end_date f of None \<Rightarrow> True | Some v \<Rightarrow> timestamp r \<le> v)"

definition page :: "int option \<Rightarrow> int option \<Rightarrow> 'a list \<Rightarrow> 'a list" where
  "page lim off rows =
     (let skipped = (case off of None \<Rightarrow> rows | Some m \<Rightarrow> drop (nat m) rows)
      in case lim of None \<Rightarrow> skipped | Some n \<Rightarrow> take (nat n) skipped)"

definition ordered_matches :: "filters \<Rightarrow> scan list \<Rightarrow> scan list \<Rightarrow> bool" where
  "ordered_matches f table rows \<longleftrightarrow>
     mset rows = mset (filter (supplied_match f) table)
     \<and> sorted_wrt (\<lambda>a b. timestamp b \<le> timestamp a) rows"


text \<open>A range bound that the engine compares as text.\<close>

definition text_bound :: "string option \<Rightarrow> bool" where
  "text_bound b = (case b of None \<Rightarrow> True | Some s \<Rightarrow> \<not> numeric_literal s)"

text \<open>The filters the source acts on: a falsy value counts as not supplied.\<close>

definition effective :: "filters \<Rightarrow> filters" where
  "effective f =
     \<lparr>f_uid = keep_truthy (f_uid f), f_campaign_id = keep_truthy (f_campaign_id f),
      f_start_date = keep_truthy (f_start_date f), f_end_date = keep_truthy (f_end_date f),
      f_limit = (if truthy_num (f_limit f) then f_limit f else None),
      f_offset = (if truthy_num (f_offset f) then f_offset f else None)\<rparr>"

text \<open>An instant that \<open>toISOString\<close> writes with a four-digit year.\<close>

definition iso_instant :: "js_date \<Rightarrow> bool" where
  "iso_instant d \<longleftrightarrow> valid_date d \<and> 0 \<le> year d \<and> year d \<le> 9999"

text \<open>
  Chronological order read off the UTC fields, and the ledger invariant of the claim about
  timestamps: every stored timestamp is what \<open>toISOString\<close> writes for an instant with
  a four-digit year.
\<close>

definition fields_less :: "js_date \<Rightarrow> js_date \<Rightarrow> bool" where
  "fields_less a b \<longleftrightarrow>
     year a < year b \<or> (year a = year b \<and>
     (month a < month b \<or> (month a = month b \<and>
     (day a < day b \<or> (day a = day b \<and>
     (hours a < hours b \<or> (hours a = hours b \<and>
     (minutes a < minutes b \<or> (minutes a = minutes b \<and>
     (seconds a < seconds b \<or> (seconds a = seconds b \<and> millis a < millis b)))))))))))"

definition iso_ledger :: "sqlite \<Rightarrow> bool" where
  "iso_ledger db \<longleftrightarrow>
     list_all (\<lambda>r. \<exists>d. iso_instant d \<and> timestamp r = toISOString d) (scans db)"

definition range_filters :: "js_date \<Rightarrow> js_date \<Rightarrow> filters" where
  "range_filters lo hi =
     no_filters\<lparr>f_start_date := Some (toISOString lo), f_end_date := Some (toISOString hi)\<rparr>"

section \<open>Example data\<close>

text \<open>
  A ledger with one admitted scan, and stand-ins for the two library functions on the
  strings of this example: the parser maps the stored time string to its instant, and
  the date function gives the date part of a 24-character time string. The engine of the
  examples reads the table as SQLite 3 does with the three indexes of the schema: a query
  with an identifier or campaign filter searches the index on that column and meets the
  rows in insertion order; any other query runs backwards through the index on
  \<open>timestamp\<close>.
\<close>

definition demo_moment :: "string \<Rightarrow> int option" where
  "demo_moment s = (if s = ''2025-10-19T10:00:00.000Z'' then Some 1760868000000 else None)"

definition demo_DATE :: "string \<Rightarrow> string option" where
  "demo_DATE s = (if length s = 24 then Some (take 10 s) else None)"

definition demo_scan :: scan where
  "demo_scan =
     \<lparr>scan_id = ''scan_1760868000000_9f2c41aa'', uid = ''TEST12345678'',
      campaign_id = ''DEMO01'', timestamp = ''2025-10-19T10:00:00.000Z'',
      checksum = ''7846f1723ad48ce1123a49783fc1b6d98d260fae9a59b7a9c7343aab06214498'',
      verified = True\<rparr>"

definition demo_read_order :: "filters \<Rightarrow> scan list \<Rightarrow> scan list" where
  "demo_read_order f rows =
     (if truthy_str (f_uid f) \<or> truthy_str (f_campaign_id f) then rows
      else rev (sort_key timestamp rows))"

definition demo_db :: sqlite where
  "demo_db =
     \<lparr>scans = [demo_scan], io_fault = (\<lambda>_. False), sql_DATE = demo_DATE,
      read_order = demo_read_order\<rparr>"

definition demo_now :: js_date where
  "demo_now =
     \<lparr>year = 2025, month = 10, day = 19, hours = 10, minutes = 4, seconds = 59, millis = 999\<rparr>"

definition demo_start :: js_date where
  "demo_start =
     \<lparr>year = 2025, month = 10, day = 19, hours = 10, minutes = 0, seconds = 0, millis = 0\<rparr>"

definition demo_yesterday :: js_date where
  "demo_yesterday =
     \<lparr>year = 2025, month = 10, day = 18, hours = 10, minutes = 4, seconds = 59, millis = 999\<rparr>"

definition demo_request :: scan_request where
  "demo_request =
     \<lparr>body = \<lparr>body_uid = Some ''TEST12345678'', body_campaign_id = Some ''DEMO01''\<rparr>,
      t_moment = 1760868000000, d_today = demo_start, d_stamp = demo_start,
      new_scan_id = ''scan_1760868000000_9f2c41aa'', d_from = demo_start, d_to = demo_start\<rparr>"


definition demo_empty :: sqlite where
  "demo_empty = demo_db\<lparr>scans := []\<rparr>"

definition demo_failing :: sqlite where
  "demo_failing = demo_db\<lparr>io_fault := (\<lambda>_. True)\<rparr>"

definition demo_count_failing :: sqlite where
  "demo_count_failing = demo_db\<lparr>io_fault := (\<lambda>s. s = SelectDailyScanCount)\<rparr>"

definition demo_key :: string where
  "demo_key = ''neocard-aei-hmac-secret-key-2024''"

definition demo_long_key :: string where
  "demo_long_key = ''neocard-aei-hmac-secret-key-2024-rotated-for-the-sponsor-campaign''"

definition demo_later_scan :: scan where
  "demo_later_scan =
     demo_scan\<lparr>scan_id := ''scan_1760868299999_5d01b7e2'', timestamp := ''2025-10-19T10:04:59.999Z''\<rparr>"

text \<open>
  A ledger of four records for the query: two of one identifier with the same timestamp,
  a later one of that identifier, and one of another identifier in between. The filters
  ask for the identifier's records between the first and the last timestamp (both
  stored), skipping one and taking two.
\<close>

definition demo_tie_scan :: scan where
  "demo_tie_scan = demo_scan\<lparr>scan_id := ''scan_1760868000000_c4a07e19''\<rparr>"

definition demo_other_scan :: scan where
  "demo_other_scan =
     demo_scan\<lparr>scan_id := ''scan_1760868120000_77e3d0b2'', uid := ''OTHER1234567'',
       timestamp := ''2025-10-19T10:02:00.000Z''\<rparr>"

definition demo_log_db :: sqlite where
  "demo_log_db =
     demo_db\<lparr>scans := [demo_scan, demo_tie_scan, demo_other_scan, demo_later_scan]\<rparr>"


definition demo_instant :: "scan \<Rightarrow> js_date" where
  "demo_instant r = (if timestamp r = ''2025-10-19T10:00:00.000Z'' then demo_start else demo_now)"

definition demo_cfg :: antifraud where
  "demo_cfg = load_antifraud None None"


section \<open>Identifier Validator: properties\<close>

lemma rep_to_end_iff:
  "rep_to_end p lo hi s \<longleftrightarrow> lo \<le> length s \<and> length s \<le> hi \<and> (\<forall>c \<in> set s. p c)"
proof (induction s arbitrary: lo hi)
  case Nil
  then show ?case by simp
next
  case (Cons c cs)
  then show ?case by (cases hi; cases lo) auto
qed

lemma uid_class_iff: "uid_class c \<longleftrightarrow> c \<in> ascii_letters_digits"
proof (cases c)
  case (Char b0 b1 b2 b3 b4 b5 b6 b7)
  then show ?thesis
    by (cases b0; cases b1; cases b2; cases b3; cases b4; cases b5; cases b6; cases b7;
        simp add: uid_class_def ascii_letters_digits_def)
qed

lemma validateScanRequest_accepts_iff:
  "validateScanRequest b = None \<longleftrightarrow>
     (\<exists>u c. body_uid b = Some u \<and> body_campaign_id b = Some c \<and> c \<noteq> [] \<and> isValidUID u)"
proof -
  have "\<not> isValidUID []" by (simp add: isValidUID_def)
  then show ?thesis
    by (cases "body_uid b"; cases "body_campaign_id b")
      (auto simp: validateScanRequest_def falsy_str_def)
qed

text \<open>
  C3. The validator accepts a string if and only if it has 8 to 16 characters and each of
  them is an ASCII letter or digit.
\<close>

theorem isValidUID_iff:
  "isValidUID s \<longleftrightarrow>
     8 \<le> length s \<and> length s \<le> 16 \<and> set s \<subseteq> ascii_letters_digits"
  by (auto simp: isValidUID_def rep_to_end_iff uid_class_iff)

section \<open>Integrity Codec: properties\<close>

lemma length_state_bytes: "length (state_bytes s) = 32"
  by (cases s rule: state_bytes.cases) (simp add: be32_bytes_def)

lemma length_sha256: "length (sha256 m) = 32"
  by (simp add: sha256_def Let_def length_state_bytes)

lemma length_hmac_sha256: "length (hmac_sha256 k m) = 32"
  by (simp add: hmac_sha256_def Let_def length_sha256)

lemma length_hex_encode: "length (hex_encode bs) = 2 * length bs"
  by (induction bs) (simp_all add: hex_encode_def)

lemma hex_val_digit_all: "list_all (\<lambda>n. hex_val (hex_digit n) = Some n) [0..<16]"
  by code_simp

lemma hex_val_digit: "n < 16 \<Longrightarrow> hex_val (hex_digit n) = Some n"
  using hex_val_digit_all by (simp add: list_all_iff)

lemma byte_nibbles: "16 * drop_bit 4 b + (b AND 15) = (b :: byte)"
proof -
  have "push_bit 4 (drop_bit 4 b) + take_bit 4 b = b" by (rule bits_ident)
  then show ?thesis
    by (simp add: push_bit_eq_mult take_bit_eq_mask mask_eq_exp_minus_1 mult.commute)
qed

lemma nibble_hi: "unat (drop_bit 4 (b :: byte)) < 16"
proof -
  have "unat b < 256" using unsigned_less [of b, where ?'a = nat] by simp
  then show ?thesis by (simp add: drop_bit_eq_div unat_div)
qed

lemma nibble_lo: "unat (b AND 15) < 16" for b :: byte
proof -
  have "unat (b AND 15) \<le> unat (15 :: byte)"
    by (rule word_and_le1 [THEN word_le_nat_alt [THEN iffD1]])
  then show ?thesis by simp
qed

lemma hex_decode_encode: "hex_decode (hex_encode bs) = bs"
  by (induction bs) (simp_all add: hex_encode_def hex_val_digit nibble_hi nibble_lo byte_nibbles)

section \<open>Integrity Codec: known answers\<close>

text \<open>
  The functions are evaluated on numerals by rewriting. A rotation of a 32-bit word is
  the two shifts it is made of, and each sum is cut back to 32 bits where it is formed,
  so that the numerals stay short.
\<close>

lemma take_bit_u32: "take_bit 32 (w :: u32) = w"
  by (rule take_bit_word_eq_self) simp

lemma rotr32:
  assumes "n < 32"
  shows "word_rotr n (w :: 32 word) = drop_bit n w OR push_bit (32 - n) w"
proof (rule bit_word_eqI)
  fix k
  assume "k < LENGTH(32)"
  then have k: "k < 32" by simp
  have l: "bit (word_rotr n w) k \<longleftrightarrow> bit w ((k + n) mod 32)"
    using k by (simp add: bit_word_rotr_iff)
  have d: "bit (drop_bit n w) k \<longleftrightarrow> bit w (n + k)"
    by (simp add: bit_drop_bit_eq)
  have p: "bit (push_bit (32 - n) w) k \<longleftrightarrow> 32 - n \<le> k \<and> bit w (k - (32 - n))"
    using k by (simp add: bit_push_bit_iff)
  have "bit w ((k + n) mod 32) \<longleftrightarrow> bit w (n + k) \<or> (32 - n \<le> k \<and> bit w (k - (32 - n)))"
  proof (cases "k + n < 32")
    case True
    then have "(k + n) mod 32 = n + k" by simp
    moreover have "\<not> (32 - n \<le> k)" using True by simp
    ultimately show ?thesis by (simp add: add.commute)
  next
    case False
    then have ge: "32 \<le> k + n" by simp
    have lt: "k + n - 32 < 32" using k assms by simp
    have "(k + n) mod 32 = (k + n - 32) mod 32" using ge by (rule le_mod_geq)
    also have "\<dots> = k + n - 32" using lt by (rule mod_less)
    also have "\<dots> = k - (32 - n)" using ge assms by simp
    finally have m: "(k + n) mod 32 = k - (32 - n)" .
    have c: "32 - n \<le> k" using ge by simp
    have nb: "\<not> bit w (n + k)"
    proof
      assume "bit w (n + k)"
      then have "n + k < LENGTH(32)" by (rule bit_imp_le_length)
      then show False using ge by simp
    qed
    show ?thesis using c nb by (simp only: m simp_thms)
  qed
  then show "bit (word_rotr n w) k \<longleftrightarrow> bit (drop_bit n w OR push_bit (32 - n) w) k"
    by (simp only: l d p bit_or_iff)
qed

lemma sha_round_reduced:
  "sha_round (a, b, c, d, e, f, g, h) (k, w) =
     (let t1 = h + bsig1 e + ch e f g + k + w;
          t2 = bsig0 a + maj a b c
      in (take_bit 32 (t1 + t2), a, b, c, take_bit 32 (d + t1), e, f, g))"
  by (simp add: take_bit_u32)

lemma schedule_numeral:
  "schedule (numeral k) ws =
     schedule (pred_numeral k)
       (ws @ [take_bit 32 (ssig1 (ws ! (length ws - 2)) + ws ! (length ws - 7)
                + ssig0 (ws ! (length ws - 15)) + ws ! (length ws - 16))])"
  unfolding take_bit_u32 by (simp add: numeral_eq_Suc Let_def)

lemma schedule_Suc_0:
  "schedule (Suc 0) ws =
     ws @ [take_bit 32 (ssig1 (ws ! (length ws - 2)) + ws ! (length ws - 7)
             + ssig0 (ws ! (length ws - 15)) + ws ! (length ws - 16))]"
  by (simp add: take_bit_u32 Let_def)

lemma add_state_reduced:
  "add_state (a, b, c, d, e, f, g, h) (a', b', c', d', e', f', g', h') =
     (take_bit 32 (a + a'), take_bit 32 (b + b'), take_bit 32 (c + c'), take_bit 32 (d + d'),
      take_bit 32 (e + e'), take_bit 32 (f + f'), take_bit 32 (g + g'), take_bit 32 (h + h'))"
  by (simp add: take_bit_u32)

lemmas sha_eval = compress_def K256_def sha_round_reduced schedule_numeral schedule_Suc_0
  add_state_reduced ch_def maj_def bsig0_def bsig1_def ssig0_def ssig1_def rotr32 Let_def

lemma replicate_numeral: "replicate (numeral k) x = x # replicate (pred_numeral k) x"
  by (simp add: numeral_eq_Suc)

lemma split_blocks_numeral:
  "split_blocks (numeral k) bs = take 64 bs # split_blocks (pred_numeral k) (drop 64 bs)"
  by (simp add: numeral_eq_Suc)

lemma words_of_numeral:
  "words_of (numeral k) bs = be32 (take 4 bs) # words_of (pred_numeral k) (drop 4 bs)"
  by (simp add: numeral_eq_Suc)

lemmas bytes_eval = sha256_def sha_pad_def be64_bytes_def be32_bytes_def be32_def
  replicate_numeral split_blocks_numeral words_of_numeral upt_conv_Cons H256_def Let_def

text \<open>
  The one-block example of FIPS 180-4: the message \<open>abc\<close>.
\<close>

lemma compress_fips_abc:
  "compress
     (1779033703, 3144134277, 1013904242, 2773480762, 1359893119, 2600822924,
      528734635, 1541459225)
     [1633837952, 0, 0, 0, 0, 0, 0, 0, 0, 0, 0, 0, 0, 0, 0, 24]
   = (3128432319, 2399260650, 1094795486, 1571693091, 2953011619, 2518121116,
      3021012833, 4060091821)"
  by (simp add: sha_eval del: sha_round.simps add_state.simps schedule.simps(2))

lemma sha256_fips_abc:
  "hex_encode (sha256 (utf8 ''abc''))
     = ''ba7816bf8f01cfea414140de5dae2223b00361a396177a9cb410ff61f20015ad''"
  by (simp add: bytes_eval compress_fips_abc utf8_def hex_encode_def hex_digit_def)

text \<open>
  Test case 2 of RFC 4231 (key \<open>Jefe\<close>), its data split into three fields: the four
  compressions of the inner and the outer hash, and the digest the RFC lists.
\<close>

lemma compress_rfc4231_1:
  "compress
     (1779033703, 3144134277, 1013904242, 2773480762, 1359893119, 2600822924,
      528734635, 1541459225)
     [2085834835, 909522486, 909522486, 909522486, 909522486, 909522486, 909522486,
      909522486, 909522486, 909522486, 909522486, 909522486, 909522486, 909522486,
      909522486, 909522486]
   = (1700636666, 3426962231, 1511839179, 110292494, 2759467987, 1278932041,
      3684834018, 2026328076)"
  by (simp add: sha_eval del: sha_round.simps add_state.simps schedule.simps(2))

lemma compress_rfc4231_2:
  "compress
     (1700636666, 3426962231, 1511839179, 110292494, 2759467987, 1278932041,
      3684834018, 2026328076)
     [2003329396, 543452960, 2036408439, 1634628640, 1718579744, 1852798056,
      1768843071, 2147483648, 0, 0, 0, 0, 0, 0, 0, 736]
   = (2732885382, 1026030040, 1689030016, 607298029, 1199410252, 1865719062,
      3571968279, 3324627671)"
  by (simp add: sha_eval del: sha_round.simps add_state.simps schedule.simps(2))

lemma compress_rfc4231_3:
  "compress
     (1779033703, 3144134277, 1013904242, 2773480762, 1359893119, 2600822924,
      528734635, 1541459225)
     [372849209, 1549556828, 1549556828, 1549556828, 1549556828, 1549556828,
      1549556828, 1549556828, 1549556828, 1549556828, 1549556828, 1549556828,
      1549556828, 1549556828, 1549556828, 1549556828]
   = (246408149, 323038828, 1785343979, 758602444, 1369767239, 1840289256, 599761290,
      1391542741)"
  by (simp add: sha_eval del: sha_round.simps add_state.simps schedule.simps(2))

lemma compress_rfc4231_4:
  "compress
     (246408149, 323038828, 1785343979, 758602444, 1369767239, 1840289256, 599761290,
      1391542741)
     [2732885382, 1026030040, 1689030016, 607298029, 1199410252, 1865719062,
      3571968279, 3324627671, 2147483648, 0, 0, 0, 0, 0, 0, 768]
   = (1541194054, 3210769742, 1778656294, 144012743, 1509965576, 2636593539,
      2649512121, 1693202499)"
  by (simp add: sha_eval del: sha_round.simps add_state.simps schedule.simps(2))

lemma seal_rfc4231:
  "generateAEIChecksum ''what do ya'' '' want for '' ''nothing?'' ''Jefe''
     = ''5bdcc146bf60754e6a042426089575c75a003f089d2739839dec58b964ec3843''"
  unfolding generateAEIChecksum_def hmac_sha256_def Let_def
  by (simp add: hmac_key_block_def bytes_eval
      compress_rfc4231_1 compress_rfc4231_2 compress_rfc4231_3 compress_rfc4231_4
      utf8_def hex_encode_def hex_digit_def)

text \<open>
  The example record under the default secret of the configuration.
\<close>

lemma compress_demo_1:
  "compress
     (1779033703, 3144134277, 1013904242, 2773480762, 1359893119, 2600822924,
      528734635, 1541459225)
     [1481857365, 1464095259, 1465081627, 1583044437, 457528149, 1146307099,
      1565740827, 67503106, 909522486, 909522486, 909522486, 909522486, 909522486,
      909522486, 909522486, 909522486]
   = (1907515889, 2157868877, 3673259003, 2152908652, 1700760247, 2001861040,
      571094982, 2485915301)"
  by (simp add: sha_eval del: sha_round.simps add_state.simps schedule.simps(2))

lemma compress_demo_2:
  "compress
     (1907515889, 2157868877, 3673259003, 2152908652, 1700760247, 2001861040,
      571094982, 2485915301)
     [1413829460, 825373492, 892745528, 842019381, 758198317, 825840689, 809119792,
      976236590, 808464474, 1145392463, 808550400, 0, 0, 0, 0, 848]
   = (4130181033, 3942766409, 3493301431, 3740975514, 1760759201, 3617607712,
      3622033463, 3779688369)"
  by (simp add: sha_eval del: sha_round.simps add_state.simps schedule.simps(2))

lemma compress_demo_3:
  "compress
     (1779033703, 3144134277, 1013904242, 2773480762, 1359893119, 2600822924,
      528734635, 1541459225)
     [842609471, 1026439281, 1027159409, 875642175, 1898920255, 775497841, 926492017,
      1852599912, 1549556828, 1549556828, 1549556828, 1549556828, 1549556828,
      1549556828, 1549556828, 1549556828]
   = (1140371398, 1380112733, 1315457914, 3365709908, 267583738, 2445878346,
      2268363167, 1306770143)"
  by (simp add: sha_eval del: sha_round.simps add_state.simps schedule.simps(2))

lemma compress_demo_4:
  "compress
     (1140371398, 1380112733, 1315457914, 3365709908, 267583738, 2445878346,
      2268363167, 1306770143)
     [4130181033, 3942766409, 3493301431, 3740975514, 1760759201, 3617607712,
      3622033463, 3779688369, 2147483648, 0, 0, 0, 0, 0, 0, 768]
   = (2017915250, 987008225, 305809784, 1069659865, 2368081838, 2589570985, 3342088875,
      102843544)"
  by (simp add: sha_eval del: sha_round.simps add_state.simps schedule.simps(2))

lemma seal_demo:
  "generateAEIChecksum ''TEST12345678'' ''2025-10-19T10:00:00.000Z'' ''DEMO01'' demo_key
     = ''7846f1723ad48ce1123a49783fc1b6d98d260fae9a59b7a9c7343aab06214498''"
  unfolding generateAEIChecksum_def hmac_sha256_def Let_def
  by (simp add: hmac_key_block_def bytes_eval demo_key_def
      compress_demo_1 compress_demo_2 compress_demo_3 compress_demo_4
      utf8_def hex_encode_def hex_digit_def)

text \<open>
  A secret of 65 bytes, which HMAC hashes first, and fields of 60 bytes together, which
  make the inner hash three blocks long.
\<close>

lemma compress_long_1:
  "compress
     (1779033703, 3144134277, 1013904242, 2773480762, 1359893119, 2600822924,
      528734635, 1541459225)
     [1852141411, 1634886701, 1634036013, 1751998819, 762537315, 1919251501,
      1801812269, 842019380, 762474356, 1635018084, 761687922, 762603621, 762540143,
      1853058930, 761487725, 1885432167]
   = (328435258, 3989943623, 1630802379, 4219985833, 2074233723, 3154296246,
      3208221699, 618846666)"
  by (simp add: sha_eval del: sha_round.simps add_state.simps schedule.simps(2))

lemma compress_long_2:
  "compress
     (328435258, 3989943623, 1630802379, 4219985833, 2074233723, 3154296246,
      3208221699, 618846666)
     [1853882368, 0, 0, 0, 0, 0, 0, 0, 0, 0, 0, 0, 0, 0, 0, 520]
   = (616128076, 3608103035, 3211992498, 3566078714, 1055676985, 2367276762,
      2417415659, 4029784030)"
  by (simp add: sha_eval del: sha_round.simps add_state.simps schedule.simps(2))

lemma compress_long_3:
  "compress
     (1779033703, 3144134277, 1013904242, 2773480762, 1359893119, 2600822924,
      528734635, 1541459225)
     [311388282, 3778641485, 2303011716, 3803725004, 148532239, 3140481260, 2787173341,
      3322391016, 909522486, 909522486, 909522486, 909522486, 909522486, 909522486,
      909522486, 909522486]
   = (2723826759, 2695018328, 868602469, 2763998406, 1567916484, 2769410031,
      1681424111, 3522613285)"
  by (simp add: sha_eval del: sha_round.simps add_state.simps schedule.simps(2))

lemma compress_long_4:
  "compress
     (2723826759, 2695018328, 868602469, 2763998406, 1567916484, 2769410031,
      1681424111, 3522613285)
     [1094861636, 1162233672, 825373492, 892745528, 842019380, 758133293, 842617906,
      859452729, 976566574, 960051546, 1464421972, 1163013459, 1347374675, 1330785586,
      808596545, 2147483648]
   = (1461122775, 342346191, 2521663769, 1906534656, 3823827451, 1688973031, 198877738,
      2219483866)"
  by (simp add: sha_eval del: sha_round.simps add_state.simps schedule.simps(2))

lemma compress_long_5:
  "compress
     (1461122775, 342346191, 2521663769, 1906534656, 3823827451, 1688973031, 198877738,
      2219483866)
     [0, 0, 0, 0, 0, 0, 0, 0, 0, 0, 0, 0, 0, 0, 0, 992]
   = (4227805462, 2352347696, 2217614488, 293583357, 3039437947, 45653453, 1454781021,
      3833737522)"
  by (simp add: sha_eval del: sha_round.simps add_state.simps schedule.simps(2))

lemma compress_long_6:
  "compress
     (1779033703, 3144134277, 1013904242, 2773480762, 1359893119, 2600822924,
      528734635, 1541459225)
     [2028274192, 2337477671, 3811525102, 2295486118, 1655703141, 3510999686,
      3427436983, 2892874626, 1549556828, 1549556828, 1549556828, 1549556828,
      1549556828, 1549556828, 1549556828, 1549556828]
   = (3809046542, 2736526501, 1904884976, 3631808294, 957798763, 4260822453,
      4170849038, 2424517686)"
  by (simp add: sha_eval del: sha_round.simps add_state.simps schedule.simps(2))

lemma compress_long_7:
  "compress
     (3809046542, 2736526501, 1904884976, 3631808294, 957798763, 4260822453,
      4170849038, 2424517686)
     [4227805462, 2352347696, 2217614488, 293583357, 3039437947, 45653453, 1454781021,
      3833737522, 2147483648, 0, 0, 0, 0, 0, 0, 768]
   = (1740861913, 3835874543, 3722522328, 39880252, 53768070, 184428026, 198020193,
      2665956254)"
  by (simp add: sha_eval del: sha_round.simps add_state.simps schedule.simps(2))

lemma seal_long:
  "generateAEIChecksum ''ABCDEFGH12345678'' ''2024-02-29T23:59:59.999Z''
       ''WINTER-SPONSOR-2024A'' demo_long_key
     = ''67c371d9e4a2ccefdde12ed80260863c03346f860afe25fa0bcd8c619ee7439e''"
  unfolding generateAEIChecksum_def hmac_sha256_def Let_def
  by (simp add: hmac_key_block_def bytes_eval demo_long_key_def
      compress_long_1 compress_long_2 compress_long_3 compress_long_4 compress_long_5
      compress_long_6 compress_long_7 utf8_def hex_encode_def hex_digit_def)

section \<open>Integrity Codec: verification\<close>

lemma hex_digit_is_hex: "is_hex_char (hex_digit n)"
proof -
  have "n mod 16 < length ''0123456789abcdef''" by simp
  then have "''0123456789abcdef'' ! (n mod 16) \<in> set ''0123456789abcdef''"
    by (rule nth_mem)
  then show ?thesis by (auto simp: hex_digit_def is_hex_char_def)
qed

lemma hex_encode_is_hex: "list_all is_hex_char (hex_encode bs)"
  by (induction bs) (simp_all add: hex_encode_def hex_digit_is_hex)

lemma utf8_append: "utf8 (a @ b) = utf8 a @ utf8 b"
  by (simp add: utf8_def)

lemma generateAEIChecksum_concat:
  "u @ ts @ c = u' @ ts' @ c'
     \<Longrightarrow> generateAEIChecksum u ts c key = generateAEIChecksum u' ts' c' key"
  by (simp add: generateAEIChecksum_def)

text \<open>
  C4. The seal is a function of its four arguments alone: the lower-case hexadecimal
  HMAC-SHA256, under the secret as key, of the bytes of identifier, timestamp and
  campaign in this order with nothing between them; it always has 64 characters, all
  hexadecimal digits. On the key and data of test case 2 of RFC 4231 it is the digest
  listed there, and on the example record under the default secret it is the seal that
  record carries. A third evaluation has a secret longer than a block, which is hashed
  first, and fields that make the inner hash three blocks long.
\<close>

theorem generateAEIChecksum_hmac:
  "generateAEIChecksum u ts c key
     = hex_encode (hmac_sha256 (utf8 key) (utf8 u @ utf8 ts @ utf8 c))
   \<and> length (generateAEIChecksum u ts c key) = 64
   \<and> list_all is_hex_char (generateAEIChecksum u ts c key)
   \<and> generateAEIChecksum ''what do ya'' '' want for '' ''nothing?'' ''Jefe''
       = ''5bdcc146bf60754e6a042426089575c75a003f089d2739839dec58b964ec3843''
   \<and> generateAEIChecksum (uid demo_scan) (timestamp demo_scan) (campaign_id demo_scan) demo_key
       = checksum demo_scan
   \<and> checksum demo_scan = ''7846f1723ad48ce1123a49783fc1b6d98d260fae9a59b7a9c7343aab06214498''
   \<and> generateAEIChecksum ''ABCDEFGH12345678'' ''2024-02-29T23:59:59.999Z''
         ''WINTER-SPONSOR-2024A'' demo_long_key
       = ''67c371d9e4a2ccefdde12ed80260863c03346f860afe25fa0bcd8c619ee7439e''"
proof -
  have "generateAEIChecksum u ts c key
     = hex_encode (hmac_sha256 (utf8 key) (utf8 u @ utf8 ts @ utf8 c))"
    by (simp add: generateAEIChecksum_def utf8_append)
  moreover have "length (generateAEIChecksum u ts c key) = 64"
    by (simp add: generateAEIChecksum_def length_hex_encode length_hmac_sha256)
  moreover have "list_all is_hex_char (generateAEIChecksum u ts c key)"
    by (simp add: generateAEIChecksum_def hex_encode_is_hex)
  moreover have "generateAEIChecksum (uid demo_scan) (timestamp demo_scan)
      (campaign_id demo_scan) demo_key = checksum demo_scan"
    using seal_demo by (simp add: demo_scan_def)
  moreover have "checksum demo_scan
      = ''7846f1723ad48ce1123a49783fc1b6d98d260fae9a59b7a9c7343aab06214498''"
    by (simp add: demo_scan_def)
  ultimately show ?thesis
    using seal_rfc4231 seal_long by (simp only: simp_thms)
qed

lemma hex_val_iff: "hex_val c \<noteq> None \<longleftrightarrow> is_hex_char c"
proof (cases c)
  case (Char b0 b1 b2 b3 b4 b5 b6 b7)
  then show ?thesis
    by (cases b0; cases b1; cases b2; cases b3; cases b4; cases b5; cases b6; cases b7;
        simp add: hex_val_def is_hex_char_def)
qed

lemma hex_decode_encode_append: "hex_decode (hex_encode bs @ rest) = bs @ hex_decode rest"
  by (induction bs) (simp_all add: hex_encode_def hex_val_digit nibble_hi nibble_lo byte_nibbles)

lemma hex_decode_checksum:
  "hex_decode (generateAEIChecksum u ts c key @ rest)
     = hmac_sha256 (utf8 key) (utf8 (u @ ts @ c)) @ hex_decode rest"
  by (simp add: generateAEIChecksum_def hex_decode_encode_append)

lemma length_hex_decode_iff:
  "length (hex_decode p) = n \<longleftrightarrow>
     2 * n \<le> length p \<and> list_all is_hex_char (take (2 * n) p) \<and>
     \<not> (2 * n + 2 \<le> length p \<and> is_hex_char (p ! (2 * n)) \<and> is_hex_char (p ! (2 * n + 1)))"
proof (induction p arbitrary: n rule: induct_list012)
  case 1
  then show ?case by auto
next
  case (2 x)
  then show ?case by (cases n) auto
next
  case (3 a b rest)
  show ?case
  proof (cases "is_hex_char a \<and> is_hex_char b")
    case True
    then obtain x y where xy: "hex_val a = Some x" "hex_val b = Some y"
      using hex_val_iff by (metis not_None_eq)
    show ?thesis
    proof (cases n)
      case 0
      then show ?thesis using True xy by simp
    next
      case (Suc m)
      then show ?thesis using True xy "3.IH"(1) [of m] by simp
    qed
  next
    case False
    then have "hex_val a = None \<or> hex_val b = None" using hex_val_iff by metis
    then have dec: "hex_decode (a # b # rest) = []"
      by (auto split: option.splits)
    show ?thesis
    proof (cases n)
      case 0
      then show ?thesis using dec False by auto
    next
      case (Suc m)
      then show ?thesis using dec False by auto
    qed
  qed
qed

lemma length_checksum: "length (generateAEIChecksum u ts c key) = 64"
  by (simp add: generateAEIChecksum_def length_hex_encode length_hmac_sha256)

lemma verify_with_suffix:
  assumes "hex_decode rest = []"
  shows "verifyAEIChecksum u ts c (generateAEIChecksum u ts c key @ rest) key = Inr True"
proof -
  have "hex_decode (generateAEIChecksum u ts c key @ rest)
          = hex_decode (generateAEIChecksum u ts c key @ [])"
    using assms hex_decode_checksum [of u ts c key rest] hex_decode_checksum [of u ts c key "[]"]
    by simp
  then show ?thesis
    by (simp add: verifyAEIChecksum_def timingSafeEqual_def)
qed

text \<open>
  C9, as amended. Verification returns a boolean exactly when the provided checksum
  decodes to 32 bytes, and throws the RangeError of the length check otherwise. The
  decoded length is 32 exactly when the first 64 characters are hexadecimal digits and
  they are not followed by a further pair of hexadecimal digits: what follows a
  non-hexadecimal pair, or a single trailing character, is ignored.
\<close>

theorem verifyAEIChecksum_total_iff:
  "verifyAEIChecksum u ts c p key =
     (if length (hex_decode p) = 32
      then Inr (hmac_sha256 (utf8 key) (utf8 (u @ ts @ c)) = hex_decode p)
      else Inl RangeError_byte_length)
   \<and> (length (hex_decode p) = 32 \<longleftrightarrow>
        64 \<le> length p \<and> list_all is_hex_char (take 64 p) \<and>
        \<not> (66 \<le> length p \<and> is_hex_char (p ! 64) \<and> is_hex_char (p ! 65)))"
proof -
  have "hex_decode (generateAEIChecksum u ts c key) = hmac_sha256 (utf8 key) (utf8 (u @ ts @ c))"
    using hex_decode_checksum [of u ts c key "[]"] by simp
  then have "verifyAEIChecksum u ts c p key =
     (if length (hex_decode p) = 32
      then Inr (hmac_sha256 (utf8 key) (utf8 (u @ ts @ c)) = hex_decode p)
      else Inl RangeError_byte_length)"
    by (auto simp: verifyAEIChecksum_def timingSafeEqual_def length_hmac_sha256)
  moreover have "length (hex_decode p) = 32 \<longleftrightarrow>
        64 \<le> length p \<and> list_all is_hex_char (take 64 p) \<and>
        \<not> (66 \<le> length p \<and> is_hex_char (p ! 64) \<and> is_hex_char (p ! 65))"
    using length_hex_decode_iff [of p 32] by simp
  ultimately show ?thesis by blast
qed

text \<open>
  C9 as stated fails: the seal followed by two characters that are no hexadecimal digits
  is not a well-formed 64-character checksum, and verification returns true for it.
\<close>

theorem verify_accepts_trailing_garbage:
  "verifyAEIChecksum ''TEST12345678'' ''2025-10-19T10:00:00.000Z'' ''DEMO01''
     (generateAEIChecksum ''TEST12345678'' ''2025-10-19T10:00:00.000Z'' ''DEMO01''
        ''neocard-aei-hmac-secret-key-2024'' @ ''zz'')
     ''neocard-aei-hmac-secret-key-2024'' = Inr True
   \<and> \<not> well_formed_checksum
        (generateAEIChecksum ''TEST12345678'' ''2025-10-19T10:00:00.000Z'' ''DEMO01''
           ''neocard-aei-hmac-secret-key-2024'' @ ''zz'')"
proof -
  have "hex_decode ''zz'' = []" by (simp add: hex_val_def)
  then show ?thesis
    by (simp add: verify_with_suffix length_checksum well_formed_checksum_def)
qed

section \<open>Fraud Policy Evaluator: cooldown\<close>

lemma absFloor_div_less:
  assumes "a < c * 60000" and "0 \<le> a \<or> 0 < c"
  shows "absFloor_div a 60000 < c"
proof (cases "a < 0")
  case True
  then have "0 < c" using assms by auto
  moreover have "0 \<le> (- a) div 60000" using True by simp
  ultimately show ?thesis using True by (simp add: absFloor_div_def)
next
  case False
  have "a div 60000 * 60000 + a mod 60000 = a" by (rule div_mult_mod_eq)
  moreover have "0 \<le> a mod 60000" by simp
  ultimately have "a div 60000 < c" using assms(1) by linarith
  then show ?thesis using False by (simp add: absFloor_div_def)
qed

lemma absFloor_div_exact: "absFloor_div (c * 60000) 60000 = c"
proof -
  have "- (c * 60000) = (- c) * 60000" by simp
  then have "(- (c * 60000)) div 60000 = - c" by (metis nonzero_mult_div_cancel_right zero_neq_numeral)
  then show ?thesis by (simp add: absFloor_div_def)
qed

lemma order_desc_sorted:
  "sorted_wrt (\<lambda>a b. timestamp b \<le> timestamp a) (order_by_timestamp_desc rows)"
proof -
  have "sorted (map timestamp (sort_key timestamp (rev rows)))" by simp
  then have "sorted_wrt (\<lambda>a b. timestamp a \<le> timestamp b) (sort_key timestamp (rev rows))"
    by (simp add: sorted_map)
  then show ?thesis
    by (simp add: order_by_timestamp_desc_def sorted_wrt_rev)
qed

lemma set_order_desc [simp]: "set (order_by_timestamp_desc rows) = set rows"
  by (simp add: order_by_timestamp_desc_def)

lemma order_desc_head:
  assumes "order_by_timestamp_desc rows = h # rest"
  shows "h \<in> set rows \<and> (\<forall>x \<in> set rows. timestamp x \<le> timestamp h)"
proof -
  have "set (h # rest) = set rows" using assms set_order_desc by metis
  moreover have "sorted_wrt (\<lambda>a b. timestamp b \<le> timestamp a) (h # rest)"
    using order_desc_sorted [of rows] assms by simp
  ultimately show ?thesis by auto
qed

lemma getLastScanTime_most_recent:
  assumes "\<not> io_fault db SelectLastScanTime"
    and "r \<in> set (scans db)" and "uid r = u"
    and "\<forall>x \<in> set (scans db). uid x = u \<longrightarrow> timestamp x \<le> timestamp r"
  shows "getLastScanTime db u = Inr (Some (timestamp r))"
proof -
  let ?m = "filter (\<lambda>x. uid x = u) (scans db)"
  have "r \<in> set ?m" using assms by simp
  then have "order_by_timestamp_desc ?m \<noteq> []"
    by (metis set_order_desc empty_iff list.set(1))
  then obtain h rest where hd: "order_by_timestamp_desc ?m = h # rest"
    by (cases "order_by_timestamp_desc ?m") auto
  from order_desc_head [OF hd] have "h \<in> set ?m" and "timestamp r \<le> timestamp h"
    using \<open>r \<in> set ?m\<close> by auto
  moreover have "timestamp h \<le> timestamp r" using \<open>h \<in> set ?m\<close> assms(4) by simp
  ultimately have "timestamp h = timestamp r" by simp
  then show ?thesis using assms(1) hd by (simp add: getLastScanTime_def)
qed

text \<open>
  C1. When the most recent record of the identifier is less than the cooldown window old,
  the evaluator rejects with the cooldown code and reports the configured window. The
  daily count is not read on this path, so the result is the same when the daily limit
  is reached as well.
\<close>

theorem cooldown_rejects:
  assumes "\<not> io_fault db SelectLastScanTime"
    and "r \<in> set (scans db)" and "uid r = u"
    and "\<forall>x \<in> set (scans db). uid x = u \<longrightarrow> timestamp x \<le> timestamp r"
    and "timestamp r \<noteq> []"
    and "moment_ms (timestamp r) = Some last_ms"
    and "now - last_ms < cooldownMinutes cfg * 60000"
    and "0 \<le> now - last_ms \<or> 0 < cooldownMinutes cfg"
  shows "antiFraudCheck cfg moment_ms db u now now_date
           = COOLDOWN_ACTIVE (cooldownMinutes cfg) (timestamp r)"
proof -
  have "getLastScanTime db u = Inr (Some (timestamp r))"
    using assms(1-4) by (rule getLastScanTime_most_recent)
  moreover have "absFloor_div (now - last_ms) 60000 < cooldownMinutes cfg"
    using assms(7,8) by (rule absFloor_div_less)
  ultimately show ?thesis
    using assms(5,6)
    by (simp add: antiFraudCheck_def isWithinCooldown_def truthy_str_def falsy_str_def)
qed

text \<open>
  C2. When the most recent record of the identifier is exactly the cooldown window old,
  the evaluator does not answer with the cooldown rejection.
\<close>

theorem cooldown_boundary_open:
  assumes "\<not> io_fault db SelectLastScanTime"
    and "r \<in> set (scans db)" and "uid r = u"
    and "\<forall>x \<in> set (scans db). uid x = u \<longrightarrow> timestamp x \<le> timestamp r"
    and "moment_ms (timestamp r) = Some last_ms"
    and "now - last_ms = cooldownMinutes cfg * 60000"
  shows "antiFraudCheck cfg moment_ms db u now now_date \<noteq> COOLDOWN_ACTIVE c t"
proof -
  have "getLastScanTime db u = Inr (Some (timestamp r))"
    using assms(1-4) by (rule getLastScanTime_most_recent)
  moreover have "absFloor_div (now - last_ms) 60000 = cooldownMinutes cfg"
    using assms(6) by (simp add: absFloor_div_exact)
  ultimately show ?thesis
    using assms(5)
    by (simp add: antiFraudCheck_def isWithinCooldown_def Let_def split: sum.splits)
qed

section \<open>Evaluation of the example data\<close>

lemma demo_daily_count: "getDailyScanCount demo_db ''TEST12345678'' ''2025-10-19'' = Inr 1"
  by (simp add: getDailyScanCount_def demo_db_def demo_scan_def demo_DATE_def)

lemma demo_today: "split_T_0 (toISOString demo_now) = ''2025-10-19''"
  by code_simp

section \<open>Fraud Policy Evaluator: the cooldown theorems at the example\<close>

theorem cooldown_rejects_witness:
  "antiFraudCheck \<lparr>cooldownMinutes = 5, dailyScanLimit = 1\<rparr> demo_moment demo_db
     ''TEST12345678'' 1760868299999 demo_now
     = COOLDOWN_ACTIVE 5 ''2025-10-19T10:00:00.000Z''
   \<and> getDailyScanCount demo_db ''TEST12345678'' (split_T_0 (toISOString demo_now)) = Inr 1"
proof -
  have "antiFraudCheck \<lparr>cooldownMinutes = 5, dailyScanLimit = 1\<rparr> demo_moment demo_db
     ''TEST12345678'' 1760868299999 demo_now
     = COOLDOWN_ACTIVE 5 ''2025-10-19T10:00:00.000Z''"
    using cooldown_rejects [of demo_db demo_scan "''TEST12345678''" demo_moment 1760868000000
      1760868299999 "\<lparr>cooldownMinutes = 5, dailyScanLimit = 1\<rparr>" demo_now]
    by (simp add: demo_db_def demo_scan_def demo_moment_def)
  then show ?thesis by (simp add: demo_today demo_daily_count)
qed

theorem cooldown_boundary_open_witness:
  "antiFraudCheck \<lparr>cooldownMinutes = 5, dailyScanLimit = 100\<rparr> demo_moment demo_db
     ''TEST12345678'' 1760868300000 demo_now
     \<noteq> COOLDOWN_ACTIVE 5 ''2025-10-19T10:00:00.000Z''
   \<and> antiFraudCheck \<lparr>cooldownMinutes = 5, dailyScanLimit = 100\<rparr> demo_moment demo_db
     ''TEST12345678'' 1760868300000 demo_now = Next"
proof -
  have "antiFraudCheck \<lparr>cooldownMinutes = 5, dailyScanLimit = 100\<rparr> demo_moment demo_db
     ''TEST12345678'' 1760868300000 demo_now
     \<noteq> COOLDOWN_ACTIVE 5 ''2025-10-19T10:00:00.000Z''"
    using cooldown_boundary_open [of demo_db demo_scan "''TEST12345678''" demo_moment
        1760868000000 1760868300000 "\<lparr>cooldownMinutes = 5, dailyScanLimit = 100\<rparr>" demo_now 5
        "''2025-10-19T10:00:00.000Z''"]
    by (simp add: demo_db_def demo_scan_def demo_moment_def)
  moreover have "antiFraudCheck \<lparr>cooldownMinutes = 5, dailyScanLimit = 100\<rparr> demo_moment
     demo_db ''TEST12345678'' 1760868300000 demo_now = Next"
    by code_simp
  ultimately show ?thesis by simp
qed

section \<open>Scan Ledger: append\<close>

lemma insertScan_duplicate:
  "scan_id r \<in> set (map scan_id (scans db)) \<Longrightarrow> insertScan db r = Inl SQLITE_CONSTRAINT_UNIQUE"
  by (simp add: insertScan_def)

lemma insertScan_fresh:
  "scan_id r \<notin> set (map scan_id (scans db)) \<Longrightarrow> \<not> io_fault db InsertScan
     \<Longrightarrow> insertScan db r = Inr (db\<lparr>scans := scans db @ [r]\<rparr>)"
  by (simp add: insertScan_def)

lemma insertScan_Inr:
  assumes "insertScan db r = Inr db'"
  shows "scans db' = scans db @ [r] \<and> scan_id r \<notin> set (map scan_id (scans db))"
  using assms by (auto simp: insertScan_def split: if_splits)

lemma insertScan_distinct:
  assumes "insertScan db r = Inr db'" and "distinct (map scan_id (scans db))"
  shows "distinct (map scan_id (scans db'))"
  using insertScan_Inr [OF assms(1)] assms(2) by auto

lemma append_all_distinct:
  "distinct (map scan_id (scans db)) \<Longrightarrow> distinct (map scan_id (scans (append_all db rs)))"
proof (induction rs arbitrary: db)
  case Nil
  then show ?case by simp
next
  case (Cons r rs)
  show ?case
  proof (cases "insertScan db r")
    case (Inl e)
    then show ?thesis using Cons by simp
  next
    case (Inr db')
    then have "distinct (map scan_id (scans db'))"
      using Cons.prems insertScan_distinct by blast
    then show ?thesis using Inr Cons.IH by simp
  qed
qed

text \<open>
  C5. Appending a record whose scan id is already in the ledger fails with the
  uniqueness error; appending one whose scan id is new, on a store that writes, adds the
  record and succeeds. Hence no sequence of append attempts, successful or not, can
  leave two records with one scan id.
\<close>

theorem insertScan_unique_scan_id:
  "(scan_id r \<in> set (map scan_id (scans db)) \<longrightarrow> insertScan db r = Inl SQLITE_CONSTRAINT_UNIQUE)
   \<and> (scan_id r \<notin> set (map scan_id (scans db)) \<and> \<not> io_fault db InsertScan
        \<longrightarrow> insertScan db r = Inr (db\<lparr>scans := scans db @ [r]\<rparr>))
   \<and> (distinct (map scan_id (scans db))
        \<longrightarrow> distinct (map scan_id (scans (append_all db rs))))"
  using insertScan_duplicate insertScan_fresh append_all_distinct by blast

theorem insertScan_unique_scan_id_witness:
  "insertScan demo_db demo_scan = Inl SQLITE_CONSTRAINT_UNIQUE
   \<and> insertScan demo_db (demo_scan\<lparr>scan_id := ''scan_2''\<rparr>)
       = Inr (demo_db\<lparr>scans := [demo_scan, demo_scan\<lparr>scan_id := ''scan_2''\<rparr>]\<rparr>)
   \<and> distinct (map scan_id (scans (append_all demo_db
         [demo_scan, demo_scan\<lparr>scan_id := ''scan_2''\<rparr>, demo_scan\<lparr>scan_id := ''scan_2''\<rparr>])))"
proof -
  have a: "scan_id demo_scan \<in> set (map scan_id (scans demo_db))"
    by (simp add: demo_db_def)
  have b: "scan_id (demo_scan\<lparr>scan_id := ''scan_2''\<rparr>) \<notin> set (map scan_id (scans demo_db))
           \<and> \<not> io_fault demo_db InsertScan"
    by (simp add: demo_db_def demo_scan_def)
  have c: "distinct (map scan_id (scans demo_db))"
    by (simp add: demo_db_def)
  have d: "scans demo_db = [demo_scan]" by (simp add: demo_db_def)
  have 1: "insertScan demo_db demo_scan = Inl SQLITE_CONSTRAINT_UNIQUE"
    using insertScan_unique_scan_id [of demo_scan demo_db "[]"] a by blast
  have "insertScan demo_db (demo_scan\<lparr>scan_id := ''scan_2''\<rparr>)
          = Inr (demo_db\<lparr>scans := scans demo_db @ [demo_scan\<lparr>scan_id := ''scan_2''\<rparr>]\<rparr>)"
    using insertScan_unique_scan_id [of "demo_scan\<lparr>scan_id := ''scan_2''\<rparr>" demo_db "[]"] b
    by blast
  then have 2: "insertScan demo_db (demo_scan\<lparr>scan_id := ''scan_2''\<rparr>)
       = Inr (demo_db\<lparr>scans := [demo_scan, demo_scan\<lparr>scan_id := ''scan_2''\<rparr>]\<rparr>)"
    by (simp add: d)
  have 3: "distinct (map scan_id (scans (append_all demo_db
         [demo_scan, demo_scan\<lparr>scan_id := ''scan_2''\<rparr>, demo_scan\<lparr>scan_id := ''scan_2''\<rparr>])))"
    using insertScan_unique_scan_id [of demo_scan demo_db
        "[demo_scan, demo_scan\<lparr>scan_id := ''scan_2''\<rparr>, demo_scan\<lparr>scan_id := ''scan_2''\<rparr>]"] c
    by blast
  from 1 2 3 show ?thesis by blast
qed

section \<open>Storage failures\<close>

lemma getScans_fault: "io_fault db SelectScans \<Longrightarrow> \<exists>e. getScans db f = Inl e"
  by (simp add: getScans_def Let_def)

lemma get_logs_fault: "io_fault db SelectScans \<Longrightarrow> get_logs db q = Failed500 ''Failed to retrieve logs''"
  using getScans_fault [of db "logs_filters q"] by (auto simp: get_logs_def Let_def)

lemma export_csv_fault:
  "io_fault db SelectScans \<Longrightarrow> export_csv db date campaign d = Failed500 ''Failed to export CSV''"
proof -
  assume f: "io_fault db SelectScans"
  show ?thesis
    unfolding export_csv_def Let_def
    using getScans_fault [OF f] by (metis (no_types, lifting) old.sum.simps(5))
qed

lemma antiFraudCheck_last_fault:
  "io_fault db SelectLastScanTime \<Longrightarrow> antiFraudCheck cfg mm db u now d = NextError SQLITE_IOERR"
  by (simp add: antiFraudCheck_def getLastScanTime_def)

lemma antiFraudCheck_count_fault:
  assumes "io_fault db SelectDailyScanCount"
  shows "antiFraudCheck cfg mm db u now d =
           (case getLastScanTime db u of
              Inl e \<Rightarrow> NextError e
            | Inr t \<Rightarrow>
                if truthy_str t \<and> isWithinCooldown mm now t (cooldownMinutes cfg)
                then COOLDOWN_ACTIVE (cooldownMinutes cfg) (the t)
                else NextError SQLITE_IOERR)"
  using assms
  by (simp add: antiFraudCheck_def getDailyScanCount_def Let_def split: sum.splits)

lemma antiFraudCheck_fault_not_Next:
  assumes "io_fault db SelectLastScanTime \<or> io_fault db SelectDailyScanCount"
  shows "antiFraudCheck cfg mm db u now d \<noteq> Next"
proof (cases "io_fault db SelectLastScanTime")
  case True
  then show ?thesis by (simp add: antiFraudCheck_last_fault)
next
  case False
  then have "io_fault db SelectDailyScanCount" using assms by simp
  then show ?thesis
    by (simp add: antiFraudCheck_count_fault split: sum.splits)
qed

lemma antiFraudCheck_fault_not_limit:
  assumes "io_fault db SelectLastScanTime \<or> io_fault db SelectDailyScanCount"
  shows "antiFraudCheck cfg mm db u now d \<noteq> DAILY_LIMIT_EXCEEDED l n"
proof (cases "io_fault db SelectLastScanTime")
  case True
  then show ?thesis by (simp add: antiFraudCheck_last_fault)
next
  case False
  then have "io_fault db SelectDailyScanCount" using assms by simp
  then show ?thesis
    by (simp add: antiFraudCheck_count_fault split: sum.splits)
qed

lemma post_scan_last_fault:
  assumes "io_fault db SelectLastScanTime" and "validateScanRequest (body rq) = None"
  shows "post_scan cfg key mm db rq = (db, Unhandled SQLITE_IOERR)"
  using assms by (simp add: post_scan_def antiFraudCheck_last_fault)

lemma post_scan_count_fault:
  assumes "io_fault db SelectDailyScanCount" and "validateScanRequest (body rq) = None"
    and "getLastScanTime db (the (body_uid (body rq))) = Inr t"
    and "\<not> (truthy_str t \<and> isWithinCooldown mm (t_moment rq) t (cooldownMinutes cfg))"
  shows "post_scan cfg key mm db rq = (db, Unhandled SQLITE_IOERR)"
proof -
  have "antiFraudCheck cfg mm db (the (body_uid (body rq))) (t_moment rq) (d_today rq)
          = NextError SQLITE_IOERR"
    using assms(3,4) by (simp add: antiFraudCheck_count_fault [OF assms(1)])
  then show ?thesis using assms(2) by (simp add: post_scan_def)
qed

lemma post_scan_fraud_fault:
  assumes "io_fault db SelectLastScanTime \<or> io_fault db SelectDailyScanCount"
  shows "fst (post_scan cfg key mm db rq) = db"
    and "snd (post_scan cfg key mm db rq) \<noteq> Created201 r n m"
proof -
  let ?out = "antiFraudCheck cfg mm db (the (body_uid (body rq))) (t_moment rq) (d_today rq)"
  have nn: "?out \<noteq> Next" using assms by (rule antiFraudCheck_fault_not_Next)
  show "fst (post_scan cfg key mm db rq) = db"
    using nn by (cases ?out) (simp_all add: post_scan_def split: option.splits)
  show "snd (post_scan cfg key mm db rq) \<noteq> Created201 r n m"
    using nn by (cases ?out) (simp_all add: post_scan_def split: option.splits)
qed

lemma scan_handler_read_fault:
  assumes "io_fault db SelectScans"
  shows "snd (scan_handler key db rq) = Status500 ''Failed to register scan''"
proof (cases "insertScan db (scanRecord_of key rq)")
  case (Inl e)
  then show ?thesis by (simp add: scan_handler_def Let_def)
next
  case (Inr db')
  then have "io_fault db' SelectScans"
    using assms by (auto simp: insertScan_def split: if_splits)
  then obtain e where "getScans db' total_filters = Inl e"
    using getScans_fault by blast
  then show ?thesis using Inr by (simp add: scan_handler_def Let_def)
qed

lemma post_scan_read_fault:
  assumes "io_fault db SelectScans"
  shows "snd (post_scan cfg key mm db rq) \<noteq> Created201 r n m"
proof -
  let ?out = "antiFraudCheck cfg mm db (the (body_uid (body rq))) (t_moment rq) (d_today rq)"
  show ?thesis
    using scan_handler_read_fault [OF assms, of key rq]
    by (cases ?out) (simp_all add: post_scan_def split: option.splits)
qed

lemma getStats_faults:
  "io_fault db CountTotal \<Longrightarrow> totalScans (getStats db d d') = 0"
  "io_fault db CountToday \<Longrightarrow> todayScans (getStats db d d') = 0"
  "io_fault db CountYesterday \<Longrightarrow> yesterdayScans (getStats db d d') = 0"
  "io_fault db CountUniqueUids \<Longrightarrow> uniqueUids (getStats db d d') = 0"
  "io_fault db SelectLastScan \<Longrightarrow> lastScan (getStats db d d') = None"
  by (simp_all add: getStats_def Let_def)

text \<open>
  C7, as amended. A failing read in the fraud check is handed on as the error. When the
  first read (the last scan time) fails, the outcome is the error. When the daily count
  fails, the outcome is the error whenever the count is read at all, that is unless the
  last scan time was read and is inside the cooldown window, which rejects before the
  count is read; so the check never admits and never reports a daily limit on a failing
  read. On either failure the scan endpoint stores nothing and does not answer 201, and a
  failing read of the ledger in the handler, the log route and the export route gives the
  generic 500 response. The statistics route is different: it always answers 200, and
  each of its five queries that fails is replaced by 0 (by null for the last timestamp),
  whatever the ledger holds.
\<close>

theorem read_failures_propagate:
  "(io_fault db SelectLastScanTime
      \<longrightarrow> antiFraudCheck cfg mm db u now d = NextError SQLITE_IOERR)
   \<and> (io_fault db SelectDailyScanCount
      \<longrightarrow> antiFraudCheck cfg mm db u now d =
            (case getLastScanTime db u of
               Inl e \<Rightarrow> NextError e
             | Inr t \<Rightarrow>
                 if truthy_str t \<and> isWithinCooldown mm now t (cooldownMinutes cfg)
                 then COOLDOWN_ACTIVE (cooldownMinutes cfg) (the t)
                 else NextError SQLITE_IOERR))
   \<and> (io_fault db SelectLastScanTime \<or> io_fault db SelectDailyScanCount
      \<longrightarrow> antiFraudCheck cfg mm db u now d \<noteq> Next
          \<and> antiFraudCheck cfg mm db u now d \<noteq> DAILY_LIMIT_EXCEEDED l n
          \<and> fst (post_scan cfg key mm db rq) = db
          \<and> snd (post_scan cfg key mm db rq) \<noteq> Created201 r n m)
   \<and> (io_fault db SelectLastScanTime \<and> validateScanRequest (body rq) = None
      \<longrightarrow> post_scan cfg key mm db rq = (db, Unhandled SQLITE_IOERR))
   \<and> (io_fault db SelectDailyScanCount \<and> validateScanRequest (body rq) = None
        \<and> getLastScanTime db (the (body_uid (body rq))) = Inr t
        \<and> \<not> (truthy_str t \<and> isWithinCooldown mm (t_moment rq) t (cooldownMinutes cfg))
      \<longrightarrow> post_scan cfg key mm db rq = (db, Unhandled SQLITE_IOERR))
   \<and> (io_fault db SelectScans
      \<longrightarrow> (\<exists>e. getScans db f = Inl e)
          \<and> snd (scan_handler key db rq) = Status500 ''Failed to register scan''
          \<and> snd (post_scan cfg key mm db rq) \<noteq> Created201 r n m
          \<and> get_logs db q = Failed500 ''Failed to retrieve logs''
          \<and> export_csv db date campaign d = Failed500 ''Failed to export CSV'')
   \<and> get_stats db d d' = Ok200 (getStats db d d')
   \<and> (io_fault db CountTotal \<longrightarrow> totalScans (getStats db d d') = 0)
   \<and> (io_fault db CountToday \<longrightarrow> todayScans (getStats db d d') = 0)
   \<and> (io_fault db CountYesterday \<longrightarrow> yesterdayScans (getStats db d d') = 0)
   \<and> (io_fault db CountUniqueUids \<longrightarrow> uniqueUids (getStats db d d') = 0)
   \<and> (io_fault db SelectLastScan \<longrightarrow> lastScan (getStats db d d') = None)"
proof (intro conjI impI)
  show "get_stats db d d' = Ok200 (getStats db d d')" by (simp add: get_stats_def)
qed (simp_all add: antiFraudCheck_last_fault antiFraudCheck_count_fault
      antiFraudCheck_fault_not_Next antiFraudCheck_fault_not_limit post_scan_fraud_fault
      post_scan_last_fault post_scan_count_fault getScans_fault scan_handler_read_fault
      post_scan_read_fault get_logs_fault export_csv_fault getStats_faults)

lemma demo_request_valid: "validateScanRequest (body demo_request) = None"
  by code_simp

lemma demo_count_failing_last:
  "getLastScanTime demo_count_failing ''TEST12345678'' = Inr (Some ''2025-10-19T10:00:00.000Z'')"
  by code_simp

theorem read_failures_propagate_witness:
  "antiFraudCheck \<lparr>cooldownMinutes = 5, dailyScanLimit = 100\<rparr> demo_moment demo_failing
      ''TEST12345678'' 1760868000000 demo_now = NextError SQLITE_IOERR
   \<and> antiFraudCheck \<lparr>cooldownMinutes = 5, dailyScanLimit = 100\<rparr> demo_moment
        demo_count_failing ''TEST12345678'' 1760868300000 demo_now = NextError SQLITE_IOERR
   \<and> antiFraudCheck \<lparr>cooldownMinutes = 5, dailyScanLimit = 100\<rparr> demo_moment
        demo_count_failing ''TEST12345678'' 1760868299999 demo_now
        = COOLDOWN_ACTIVE 5 ''2025-10-19T10:00:00.000Z''
   \<and> post_scan \<lparr>cooldownMinutes = 5, dailyScanLimit = 100\<rparr> demo_key demo_moment
        demo_failing demo_request = (demo_failing, Unhandled SQLITE_IOERR)
   \<and> post_scan \<lparr>cooldownMinutes = 5, dailyScanLimit = 100\<rparr> demo_key demo_moment
        demo_count_failing (demo_request\<lparr>t_moment := 1760868300000\<rparr>)
        = (demo_count_failing, Unhandled SQLITE_IOERR)
   \<and> get_logs demo_failing
        \<lparr>q_uid = None, q_campaign_id = None, q_start_date = None, q_end_date = None,
         q_limit = Some 50, q_offset = Some 0\<rparr> = Failed500 ''Failed to retrieve logs''
   \<and> export_csv demo_failing None None demo_now = Failed500 ''Failed to export CSV''
   \<and> get_stats demo_failing demo_now demo_yesterday
        = Ok200 \<lparr>totalScans = 0, todayScans = 0, yesterdayScans = 0, uniqueUids = 0,
                  lastScan = None\<rparr>
   \<and> length (scans demo_failing) = 1"
proof -
  let ?cfg = "\<lparr>cooldownMinutes = 5, dailyScanLimit = 100\<rparr>"
  let ?q = "\<lparr>q_uid = None, q_campaign_id = None, q_start_date = None, q_end_date = None,
          q_limit = Some 50, q_offset = Some 0\<rparr>"
  let ?late = "demo_request\<lparr>t_moment := 1760868300000\<rparr>"
  have f: "io_fault demo_failing s" for s by (simp add: demo_failing_def)
  have c: "io_fault demo_count_failing SelectDailyScanCount"
    by (simp add: demo_count_failing_def)
  have u: "the (body_uid (body ?late)) = ''TEST12345678''" "t_moment ?late = 1760868300000"
    "validateScanRequest (body ?late) = None"
    using demo_request_valid by (simp_all add: demo_request_def)
  have w: "isWithinCooldown demo_moment 1760868299999 (Some ''2025-10-19T10:00:00.000Z'') 5"
    "\<not> isWithinCooldown demo_moment 1760868300000 (Some ''2025-10-19T10:00:00.000Z'') 5"
    by code_simp+
  have t: "truthy_str (Some ''2025-10-19T10:00:00.000Z'')"
    by (simp add: truthy_str_def falsy_str_def)
  note all_failing = read_failures_propagate [where db = demo_failing and cfg = ?cfg
      and mm = demo_moment and u = "''TEST12345678''" and now = 1760868000000 and d = demo_now
      and rq = demo_request and key = demo_key and q = ?q and date = None and campaign = None
      and d' = demo_yesterday]
  note count_late = read_failures_propagate [where db = demo_count_failing and cfg = ?cfg
      and mm = demo_moment and u = "''TEST12345678''" and now = 1760868300000 and d = demo_now
      and rq = ?late and key = demo_key and t = "Some ''2025-10-19T10:00:00.000Z''"]
  note count_near = read_failures_propagate [where db = demo_count_failing and cfg = ?cfg
      and mm = demo_moment and u = "''TEST12345678''" and now = 1760868299999 and d = demo_now]
  have a: "antiFraudCheck ?cfg demo_moment demo_failing ''TEST12345678'' 1760868000000 demo_now
             = NextError SQLITE_IOERR"
    using all_failing f by simp
  have b: "antiFraudCheck ?cfg demo_moment demo_count_failing ''TEST12345678'' 1760868300000
             demo_now = NextError SQLITE_IOERR"
    using count_late c w t by (simp add: demo_count_failing_last)
  have b': "antiFraudCheck ?cfg demo_moment demo_count_failing ''TEST12345678'' 1760868299999
             demo_now = COOLDOWN_ACTIVE 5 ''2025-10-19T10:00:00.000Z''"
    using count_near c w t by (simp add: demo_count_failing_last)
  have p: "post_scan ?cfg demo_key demo_moment demo_failing demo_request
             = (demo_failing, Unhandled SQLITE_IOERR)"
    using all_failing f demo_request_valid by simp
  have p': "post_scan ?cfg demo_key demo_moment demo_count_failing ?late
             = (demo_count_failing, Unhandled SQLITE_IOERR)"
    using count_late c w t u by (simp add: demo_count_failing_last)
  have l: "get_logs demo_failing ?q = Failed500 ''Failed to retrieve logs''"
    "export_csv demo_failing None None demo_now = Failed500 ''Failed to export CSV''"
    using all_failing f by simp_all
  have g: "getStats demo_failing demo_now demo_yesterday
             = \<lparr>totalScans = 0, todayScans = 0, yesterdayScans = 0, uniqueUids = 0,
                 lastScan = None\<rparr>"
    using all_failing f by (intro stats.equality) simp_all
  have s: "get_stats demo_failing demo_now demo_yesterday
             = Ok200 (getStats demo_failing demo_now demo_yesterday)"
    using all_failing by simp
  have n: "length (scans demo_failing) = 1"
    by (simp add: demo_failing_def demo_db_def)
  show ?thesis
    using a b b' p p' l g s n by simp
qed

text \<open>
  C7 as stated fails: with one record in the ledger and the total count failing, the
  statistics route answers 200 with a total of 0.
\<close>

theorem stats_failure_becomes_zero:
  "get_stats (demo_db\<lparr>io_fault := (\<lambda>s. s = CountTotal)\<rparr>) demo_now demo_yesterday
     = Ok200 \<lparr>totalScans = 0, todayScans = 1, yesterdayScans = 0, uniqueUids = 1,
               lastScan = Some ''2025-10-19T10:00:00.000Z''\<rparr>
   \<and> length (scans demo_db) = 1"
  by code_simp

section \<open>Scan Ledger: query\<close>

lemma set_skip_sign: "c \<in> set s \<Longrightarrow> c \<in> set (skip_sign s) \<or> c = CHR ''+'' \<or> c = CHR ''-''"
  by (cases s) (auto simp: skip_sign_def split: if_splits)

lemma set_while_split: "c \<in> set s \<Longrightarrow> P c \<or> c \<in> set (dropWhile P s)"
proof -
  assume "c \<in> set s"
  then have "c \<in> set (takeWhile P s) \<or> c \<in> set (dropWhile P s)"
    by (metis Un_iff set_append takeWhile_dropWhile_id)
  then show ?thesis using set_takeWhileD by fastforce
qed

lemma set_hd_tl: "c \<in> set s \<Longrightarrow> c = hd s \<or> c \<in> set (tl s)"
  by (cases s) auto

lemma dropWhile_Nil_all: "dropWhile P s = [] \<Longrightarrow> c \<in> set s \<Longrightarrow> P c"
  by (simp add: dropWhile_eq_Nil_conv)

lemma numeric_literal_chars:
  assumes "numeric_literal s" and "c \<in> set s"
  shows "numeric_char c"
proof -
  define s1 where "s1 = skip_sign (dropWhile is_space s)"
  define s2 where "s2 = dropWhile is_digit s1"
  define has_point where "has_point \<longleftrightarrow> s2 \<noteq> [] \<and> hd s2 = CHR ''.''"
  define s3 where "s3 = (if has_point then dropWhile is_digit (tl s2) else s2)"
  define has_exp where "has_exp \<longleftrightarrow> s3 \<noteq> [] \<and> (hd s3 = CHR ''e'' \<or> hd s3 = CHR ''E'')"
  define s4 where "s4 = (if has_exp then dropWhile is_digit (skip_sign (tl s3)) else s3)"
  have fin: "dropWhile is_space s4 = []"
    unfolding s4_def has_exp_def s3_def has_point_def s2_def s1_def
    by (rule conjunct2 [OF conjunct2 [OF assms(1) [unfolded numeric_literal_def Let_def]]])
  have c4: "numeric_char x" if "x \<in> set s4" for x
    using dropWhile_Nil_all [OF fin that] by (simp add: numeric_char_def)
  have c3: "numeric_char x" if "x \<in> set s3" for x
  proof (cases has_exp)
    case False
    then show ?thesis using that c4 by (simp add: s4_def)
  next
    case True
    then have "hd s3 = CHR ''e'' \<or> hd s3 = CHR ''E''" by (simp add: has_exp_def)
    moreover have "x = hd s3 \<or> x \<in> set (tl s3)" using that by (rule set_hd_tl)
    moreover have "numeric_char y" if "y \<in> set (tl s3)" for y
    proof -
      have "y \<in> set (skip_sign (tl s3)) \<or> y = CHR ''+'' \<or> y = CHR ''-''"
        using that by (rule set_skip_sign)
      moreover have "numeric_char y" if "y \<in> set (skip_sign (tl s3))"
        using set_while_split [OF that, of is_digit] c4 True
        by (auto simp: s4_def numeric_char_def)
      ultimately show ?thesis by (auto simp: numeric_char_def)
    qed
    ultimately show ?thesis by (auto simp: numeric_char_def)
  qed
  have c2: "numeric_char x" if "x \<in> set s2" for x
  proof (cases has_point)
    case False
    then show ?thesis using that c3 by (simp add: s3_def)
  next
    case True
    then have "hd s2 = CHR ''.''" by (simp add: has_point_def)
    moreover have "x = hd s2 \<or> x \<in> set (tl s2)" using that by (rule set_hd_tl)
    moreover have "numeric_char y" if "y \<in> set (tl s2)" for y
      using set_while_split [OF that, of is_digit] c3 True
      by (auto simp: s3_def numeric_char_def)
    ultimately show ?thesis by (auto simp: numeric_char_def)
  qed
  have c1: "numeric_char x" if "x \<in> set s1" for x
    using set_while_split [OF that, of is_digit] c2
    by (auto simp: s2_def numeric_char_def)
  have c0: "numeric_char x" if "x \<in> set (dropWhile is_space s)" for x
    using set_skip_sign [OF that] c1 by (auto simp: s1_def numeric_char_def)
  show ?thesis
    using set_while_split [OF assms(2), of is_space] c0 by (auto simp: numeric_char_def)
qed

lemma not_numeric_char_Z: "\<not> numeric_char (CHR ''Z'')"
  by (simp add: numeric_char_def is_space_def is_digit_def)

lemma numeric_literal_examples:
  "numeric_literal ''3000''" "numeric_literal '' -12.5e+3 ''" "numeric_literal ''.5''"
  "\<not> numeric_literal ''2025-10-19''" "\<not> numeric_literal ''''" "\<not> numeric_literal ''5e''"
  "\<not> numeric_literal ''.''" "\<not> numeric_literal ''0x10''" "numeric_literal ''5.''"
  by code_simp+

lemma iso_not_numeric: "\<not> numeric_literal (toISOString d)"
proof
  assume "numeric_literal (toISOString d)"
  moreover have "CHR ''Z'' \<in> set (toISOString d)" by (simp add: toISOString_def)
  ultimately have "numeric_char (CHR ''Z'')" by (rule numeric_literal_chars)
  then show False by (simp add: not_numeric_char_Z)
qed

text \<open>
  A range bound that is a well-formed number is not compared as text: as a lower bound it
  admits every row, as an upper bound none.
\<close>

lemma getScans_numeric_bound:
  "getScans demo_db (no_filters\<lparr>f_start_date := Some ''3000''\<rparr>) = Inr [demo_scan]
   \<and> getScans demo_db (no_filters\<lparr>f_end_date := Some ''3000''\<rparr>) = Inr []"
  by code_simp


lemma truthy_case:
  "(if truthy_str v then P (the v) else True) = (case keep_truthy v of None \<Rightarrow> True | Some x \<Rightarrow> P x)"
  by (cases v) (auto simp: keep_truthy_def truthy_str_def falsy_str_def)

lemma where_clause_effective:
  assumes "text_bound (f_start_date f)" and "text_bound (f_end_date f)"
  shows "where_clause f r = supplied_match (effective f) r"
proof -
  have s: "truthy_str (f_start_date f)
             \<Longrightarrow> sql_ge (timestamp r) (the (f_start_date f)) = (the (f_start_date f) \<le> timestamp r)"
    using assms(1)
    by (cases "f_start_date f") (simp_all add: text_bound_def sql_ge_def truthy_str_def falsy_str_def)
  have e: "truthy_str (f_end_date f)
             \<Longrightarrow> sql_le (timestamp r) (the (f_end_date f)) = (timestamp r \<le> the (f_end_date f))"
    using assms(2)
    by (cases "f_end_date f") (simp_all add: text_bound_def sql_le_def truthy_str_def falsy_str_def)
  have "where_clause f r \<longleftrightarrow>
     (if truthy_str (f_uid f) then uid r = the (f_uid f) else True) \<and>
     (if truthy_str (f_campaign_id f) then campaign_id r = the (f_campaign_id f) else True) \<and>
     (if truthy_str (f_start_date f) then the (f_start_date f) \<le> timestamp r else True) \<and>
     (if truthy_str (f_end_date f) then timestamp r \<le> the (f_end_date f) else True)"
    using s e by (simp add: where_clause_def)
  then show ?thesis
    using truthy_case [of "f_uid f" "\<lambda>v. uid r = v"]
      truthy_case [of "f_campaign_id f" "\<lambda>v. campaign_id r = v"]
      truthy_case [of "f_start_date f" "\<lambda>v. v \<le> timestamp r"]
      truthy_case [of "f_end_date f" "\<lambda>v. timestamp r \<le> v"]
    by (simp add: supplied_match_def effective_def)
qed

lemma sql_limit_offset_page:
  "(\<And>n. lim = Some n \<Longrightarrow> 0 \<le> n) \<Longrightarrow> sql_limit_offset lim off rows = page lim off rows"
  by (cases lim) (auto simp: sql_limit_offset_def page_def Let_def)



text \<open>
  The engine of the examples on the ledger of four records: a query for the identifier
  meets the two records of equal timestamp in insertion order, a query without an
  identifier or campaign filter meets them the other way round.
\<close>

lemma getScans_equal_timestamps:
  "getScans demo_log_db (no_filters\<lparr>f_uid := Some ''TEST12345678''\<rparr>)
     = Inr [demo_later_scan, demo_scan, demo_tie_scan]
   \<and> getScans demo_log_db (no_filters\<lparr>f_uid := Some ''TEST12345678'', f_limit := Some 1,
        f_offset := Some 1\<rparr>) = Inr [demo_scan]
   \<and> getScans demo_log_db no_filters
     = Inr [demo_later_scan, demo_other_scan, demo_tie_scan, demo_scan]"
  by code_simp

lemma getScans_paged:
  assumes "\<not> io_fault db SelectScans"
    and "truthy_num (f_offset f) \<longrightarrow> truthy_num (f_limit f)"
    and "\<forall>n. f_limit f = Some n \<longrightarrow> 0 \<le> n"
    and "text_bound (f_start_date f)" and "text_bound (f_end_date f)"
  shows "getScans db f
      = Inr (page (f_limit (effective f)) (f_offset (effective f))
               (order_by_timestamp_desc
                  (in_read_order db f (filter (supplied_match (effective f)) (scans db)))))"
proof -
  let ?lim = "if truthy_num (f_limit f) then f_limit f else None"
  let ?off = "if truthy_num (f_offset f) then f_offset f else None"
  have lim: "f_limit (effective f) = ?lim" and off: "f_offset (effective f) = ?off"
    by (simp_all add: effective_def)
  have "\<not> (?lim = None \<and> ?off \<noteq> None)"
    using assms(2) by (auto simp: truthy_num_def split: option.splits)
  moreover have "sql_limit_offset ?lim ?off rows = page ?lim ?off rows" for rows :: "scan list"
    using assms(3) by (intro sql_limit_offset_page) (auto split: if_splits)
  moreover have "filter (where_clause f) (scans db)
      = filter (supplied_match (effective f)) (scans db)"
    using where_clause_effective [OF assms(4,5)] by (intro filter_cong) auto
  ultimately show ?thesis
    using assms(1) unfolding getScans_def Let_def lim off by simp
qed

text \<open>
  The order of rows with equal timestamps is the engine's alone: every arrangement of
  the matching records that descends by timestamp is what the query returns under some
  read order (the records of a ledger are distinct, their scan ids being unique).
\<close>

lemma read_position_nth:
  assumes "distinct rows" and "i < length rows"
  shows "read_position rows (rows ! i) = i"
proof -
  have "takeWhile (\<lambda>x. x \<noteq> rows ! i) rows = take i rows"
  proof (rule takeWhile_eq_take_P_nth)
    fix j
    assume "j < i" "j < length rows"
    then show "rows ! j \<noteq> rows ! i"
      using assms by (simp add: nth_eq_iff_index_eq)
  qed simp
  then show ?thesis using assms(2) by (simp add: read_position_def)
qed

lemma read_position_sorted:
  assumes "distinct rows"
  shows "sorted (map (read_position rows) rows)"
  unfolding sorted_iff_nth_mono
  using assms by (simp add: read_position_nth)

lemma read_position_less:
  assumes "z \<in> set rows"
  shows "read_position rows z < length rows"
proof (rule ccontr)
  assume "\<not> read_position rows z < length rows"
  then have "length (takeWhile (\<lambda>x. x \<noteq> z) rows) = length rows"
    using length_takeWhile_le [of "\<lambda>x. x \<noteq> z" rows] by (simp add: read_position_def)
  then have "takeWhile (\<lambda>x. x \<noteq> z) rows = rows"
    using takeWhile_eq_take [of "\<lambda>x. x \<noteq> z" rows] by simp
  then have "\<forall>x \<in> set rows. x \<noteq> z" by (simp only: takeWhile_eq_all_conv)
  then show False using assms by blast
qed

lemma read_position_at:
  assumes "z \<in> set rows"
  shows "rows ! read_position rows z = z"
  using nth_length_takeWhile [of "\<lambda>x. x \<noteq> z" rows] read_position_less [OF assms]
  by (simp add: read_position_def)

lemma read_position_inj:
  assumes "x \<in> set rows" and "y \<in> set rows"
    and "read_position rows x = read_position rows y"
  shows "x = y"
proof -
  have "x = rows ! read_position rows x" by (rule read_position_at [OF assms(1), symmetric])
  also have "\<dots> = rows ! read_position rows y" by (simp only: assms(3))
  also have "\<dots> = y" by (rule read_position_at [OF assms(2)])
  finally show ?thesis .
qed

lemma filter_single:
  "distinct xs \<Longrightarrow> k \<in> set xs \<Longrightarrow> filter (\<lambda>x. x = k) xs = [k]"
  by (induction xs) (auto simp: filter_empty_conv)

lemma sort_by_read_position:
  assumes "distinct rows" and "mset ms = mset rows"
  shows "sort_key (read_position rows) ms = rows"
proof (rule properties_for_sort_key)
  show "mset rows = mset ms" using assms(2) by simp
  show "sorted (map (read_position rows) rows)"
    using assms(1) by (rule read_position_sorted)
  fix k
  assume k: "k \<in> set rows"
  have s: "set ms = set rows" using assms(2) by (rule mset_eq_setD)
  have d: "distinct ms" using assms mset_eq_imp_distinct_iff [of ms rows] by simp
  have "filter (\<lambda>x. read_position rows k = read_position rows x) rows = filter (\<lambda>x. x = k) rows"
    using k by (intro filter_cong) (auto dest: read_position_inj)
  moreover have "filter (\<lambda>x. read_position rows k = read_position rows x) ms = filter (\<lambda>x. x = k) ms"
    using k s by (intro filter_cong) (auto dest: read_position_inj)
  ultimately show "filter (\<lambda>x. read_position rows k = read_position rows x) rows
      = filter (\<lambda>x. read_position rows k = read_position rows x) ms"
    using filter_single [OF assms(1) k] filter_single [OF d] k s by simp
qed

lemma order_desc_of_sorted:
  assumes "sorted_wrt (\<lambda>a b. timestamp b \<le> timestamp a) rows"
  shows "order_by_timestamp_desc rows = rows"
proof -
  have "sorted (map timestamp (rev rows))"
    using assms by (simp add: sorted_map sorted_wrt_rev)
  then show ?thesis
    by (simp add: order_by_timestamp_desc_def sort_key_id_if_sorted)
qed

lemma getScans_every_arrangement:
  assumes "\<not> io_fault db SelectScans"
    and "truthy_num (f_offset f) \<longrightarrow> truthy_num (f_limit f)"
    and "\<forall>n. f_limit f = Some n \<longrightarrow> 0 \<le> n"
    and "text_bound (f_start_date f)" and "text_bound (f_end_date f)"
    and "distinct rows" and "ordered_matches (effective f) (scans db) rows"
  shows "getScans (db\<lparr>read_order := (\<lambda>_ _. rows)\<rparr>) f
           = Inr (page (f_limit (effective f)) (f_offset (effective f)) rows)"
proof -
  let ?db = "db\<lparr>read_order := (\<lambda>_ _. rows)\<rparr>"
  let ?matches = "filter (supplied_match (effective f)) (scans db)"
  have m: "mset ?matches = mset rows" and d: "sorted_wrt (\<lambda>a b. timestamp b \<le> timestamp a) rows"
    using assms(7) by (simp_all add: ordered_matches_def)
  have "in_read_order ?db f ?matches = rows"
    using sort_by_read_position [OF assms(6) m] by (simp add: in_read_order_def)
  then have "order_by_timestamp_desc (in_read_order ?db f ?matches) = rows"
    using order_desc_of_sorted [OF d] by simp
  moreover have "\<not> io_fault ?db SelectScans" using assms(1) by simp
  ultimately show ?thesis
    using getScans_paged [OF _ assms(2-5), of ?db] by simp
qed




section \<open>Two requests in flight: properties\<close>

lemma funpow5: "(f ^^ 5) x = f (f (f (f (f x))))"
  by (simp add: eval_nat_numeral)

lemma run_alone_post_scan:
  "(step_request cfg key mm rq ^^ 5) (db, start_request rq)
     = (fst (post_scan cfg key mm db rq), Done (snd (post_scan cfg key mm db rq)))"
  unfolding funpow5
  by (simp add: post_scan_def start_request_def antiFraudCheck_def scan_handler_def Let_def
      split: option.splits sum.splits)

lemma toISOString_nonempty: "toISOString d \<noteq> []"
  by (simp add: toISOString_def)

lemma getLastScanTime_fresh:
  assumes "\<not> io_fault db SelectLastScanTime" and "\<forall>r \<in> set (scans db). uid r \<noteq> u"
  shows "getLastScanTime db u = Inr None"
proof -
  have "filter (\<lambda>r. uid r = u) (scans db) = []" using assms(2) by (simp add: filter_empty_conv)
  then show ?thesis using assms(1) by (simp add: getLastScanTime_def order_by_timestamp_desc_def)
qed

lemma getDailyScanCount_fresh:
  assumes "\<not> io_fault db SelectDailyScanCount" and "\<forall>r \<in> set (scans db). uid r \<noteq> u"
  shows "getDailyScanCount db u date = Inr 0"
proof -
  have "filter (\<lambda>r. uid r = u \<and> sql_DATE db (timestamp r) = Some date) (scans db) = []"
    using assms(2) by (simp add: filter_empty_conv)
  then show ?thesis using assms(1) by (simp add: getDailyScanCount_def)
qed

lemma step_last_fresh:
  assumes "\<not> io_fault db SelectLastScanTime"
    and "\<forall>r \<in> set (scans db). uid r \<noteq> the (body_uid (body rq))"
  shows "step_request cfg key mm rq (db, AwaitLastScanTime) = (db, AwaitDailyScanCount)"
  using getLastScanTime_fresh [OF assms] by (simp add: truthy_str_def falsy_str_def)

lemma step_count_fresh:
  assumes "\<not> io_fault db SelectDailyScanCount"
    and "\<forall>r \<in> set (scans db). uid r \<noteq> the (body_uid (body rq))"
    and "0 < dailyScanLimit cfg"
  shows "step_request cfg key mm rq (db, AwaitDailyScanCount) = (db, AwaitInsert)"
  using getDailyScanCount_fresh [OF assms(1,2)] assms(3) by simp

lemma step_insert_ok:
  assumes "\<not> io_fault db InsertScan" and "new_scan_id rq \<notin> set (map scan_id (scans db))"
  shows "step_request cfg key mm rq (db, AwaitInsert)
           = (db\<lparr>scans := scans db @ [scanRecord_of key rq]\<rparr>, AwaitTotal)"
proof -
  have "scan_id (scanRecord_of key rq) = new_scan_id rq"
    by (simp add: scanRecord_of_def Let_def)
  then show ?thesis using assms by (simp add: insertScan_def)
qed

lemma getScans_total_ok:
  "\<not> io_fault db SelectScans \<Longrightarrow> \<exists>rows. getScans db total_filters = Inr rows"
  by (simp add: getScans_def total_filters_def no_filters_def truthy_num_def Let_def)

lemma getScans_today_ok:
  "\<not> io_fault db SelectScans \<Longrightarrow> \<exists>rows. getScans db (today_filters rq) = Inr rows"
  by (simp add: getScans_def today_filters_def no_filters_def truthy_num_def Let_def)

lemma step_total_ok:
  assumes "\<not> io_fault db SelectScans"
  shows "\<exists>n. step_request cfg key mm rq (db, AwaitTotal) = (db, AwaitToday n)"
  using getScans_total_ok [OF assms] by auto

lemma step_today_ok:
  assumes "\<not> io_fault db SelectScans"
  shows "\<exists>m. step_request cfg key mm rq (db, AwaitToday n)
           = (db, Done (Created201 (scanRecord_of key rq) n m))"
  using getScans_today_ok [OF assms, of rq] by auto









lemma demo_stamp: "toISOString (d_stamp demo_request) = ''2025-10-19T10:00:00.000Z''"
  by code_simp


lemma demo_cfg_values: "cooldownMinutes demo_cfg = 5" "dailyScanLimit demo_cfg = 100"
  by (simp_all add: demo_cfg_def load_antifraud_def or_default_def)



section \<open>Timestamps: string order and chronological order\<close>

lemma append_less_same_length:
  "length xs = length ys \<Longrightarrow> xs @ us < ys @ vs \<longleftrightarrow> xs < ys \<or> (xs = ys \<and> us < vs)"
  for xs ys :: "('a :: linorder) list"
  by (induction xs ys rule: list_induct2) auto

lemma radix_less:
  fixes q r q' r' k :: nat
  assumes "r < k" and "r' < k"
  shows "k * q + r < k * q' + r' \<longleftrightarrow> q < q' \<or> (q = q' \<and> r < r')"
proof (cases "q < q'")
  case True
  then have "q + 1 \<le> q'" by simp
  then have "k * (q + 1) \<le> k * q'" by (rule mult_le_mono2)
  then show ?thesis using True assms by (simp add: algebra_simps)
next
  case False
  show ?thesis
  proof (cases "q = q'")
    case True
    then show ?thesis by simp
  next
    case neq: False
    then have "q' + 1 \<le> q" using False by simp
    then have "k * (q' + 1) \<le> k * q" by (rule mult_le_mono2)
    then show ?thesis using False neq assms by (simp add: algebra_simps)
  qed
qed

lemma less_by_digits:
  "(a::nat) < b \<longleftrightarrow> a div 10 < b div 10 \<or> (a div 10 = b div 10 \<and> a mod 10 < b mod 10)"
  using radix_less [of "a mod 10" 10 "b mod 10" "a div 10" "b div 10"] by simp

lemma eq_by_digits: "(a::nat) = b \<longleftrightarrow> a div 10 = b div 10 \<and> a mod 10 = b mod 10"
  by (metis div_mult_mod_eq)

lemma of_char_digit: "of_char (digit_char n) = (48 + n mod 10 :: nat)"
proof -
  have "list_all (\<lambda>k. of_char (''0123456789'' ! k) = (48 + k :: nat)) [0..<10]"
    by code_simp
  moreover have "n mod 10 < 10" by simp
  ultimately show ?thesis by (simp add: digit_char_def list_all_iff)
qed

lemma digit_char_less: "digit_char a < digit_char b \<longleftrightarrow> a mod 10 < b mod 10"
  by (simp add: less_char_def of_char_digit)

lemma digit_char_eq: "digit_char a = digit_char b \<longleftrightarrow> a mod 10 = b mod 10"
proof
  assume "digit_char a = digit_char b"
  then have "(of_char (digit_char a) :: nat) = of_char (digit_char b)" by simp
  then show "a mod 10 = b mod 10" by (simp add: of_char_digit)
next
  assume "a mod 10 = b mod 10"
  then show "digit_char a = digit_char b" by (simp add: digit_char_def)
qed

lemma length_pad [simp]: "length (pad k n) = k"
  by (induction k arbitrary: n) auto

lemma div10_bound: "a < 10 ^ Suc k \<Longrightarrow> a div 10 < (10::nat) ^ k"
  by (simp add: less_mult_imp_div_less mult.commute)

lemma pad_order:
  "a < 10 ^ k \<Longrightarrow> b < 10 ^ k \<Longrightarrow>
     (pad k a < pad k b \<longleftrightarrow> a < b) \<and> (pad k a = pad k b \<longleftrightarrow> a = b)"
proof (induction k arbitrary: a b)
  case 0
  then show ?case by simp
next
  case (Suc k)
  note ih = Suc.IH [OF div10_bound [OF Suc.prems(1)] div10_bound [OF Suc.prems(2)]]
  have "pad (Suc k) a < pad (Suc k) b
          \<longleftrightarrow> a div 10 < b div 10 \<or> (a div 10 = b div 10 \<and> a mod 10 < b mod 10)"
    using ih by (simp add: append_less_same_length digit_char_less)
  moreover have "pad (Suc k) a = pad (Suc k) b
          \<longleftrightarrow> a div 10 = b div 10 \<and> a mod 10 = b mod 10"
    using ih by (simp add: digit_char_eq)
  ultimately show ?case
    using less_by_digits [of a b] eq_by_digits [of a b] by blast
qed


lemma month_cases:
  assumes "1 \<le> m" and "m \<le> 12"
  obtains "m = 1" | "m = 2" | "m = 3" | "m = 4" | "m = 5" | "m = 6"
    | "m = 7" | "m = 8" | "m = 9" | "m = 10" | "m = 11" | "m = (12::nat)"
  using assms by atomize_elim arith

lemma days_in_month_bounds:
  assumes "1 \<le> m" and "m \<le> 12"
  shows "1 \<le> days_in_month y m \<and> days_in_month y m \<le> 31"
  using assms by (cases m rule: month_cases) (simp_all add: days_in_month_def month_lengths_def)

lemma iso_instant_bounds:
  assumes "iso_instant d"
  shows "nat (year d) < 10 ^ 4" "month d < 10 ^ 2" "day d < 10 ^ 2" "hours d < 10 ^ 2"
    "minutes d < 10 ^ 2" "seconds d < 10 ^ 2" "millis d < 10 ^ 3"
proof -
  have v: "valid_date d" and y: "0 \<le> year d" "year d \<le> 9999"
    using assms by (simp_all add: iso_instant_def)
  have "day d \<le> 31"
    using v days_in_month_bounds [of "month d" "year d"] by (simp add: valid_date_def)
  then show "day d < 10 ^ 2" by simp
  show "nat (year d) < 10 ^ 4" using y by simp
  show "month d < 10 ^ 2" "hours d < 10 ^ 2" "minutes d < 10 ^ 2" "seconds d < 10 ^ 2"
    "millis d < 10 ^ 3"
    using v by (simp_all add: valid_date_def)
qed

lemma toISOString_iso:
  assumes "iso_instant d"
  shows "toISOString d =
     pad 4 (nat (year d)) @ CHR ''-'' # pad 2 (month d) @ CHR ''-'' # pad 2 (day d) @ CHR ''T'' #
     pad 2 (hours d) @ CHR '':'' # pad 2 (minutes d) @ CHR '':'' # pad 2 (seconds d) @ CHR ''.'' #
     pad 3 (millis d) @ ''Z''"
  using assms by (simp add: toISOString_def year_string_def iso_instant_def)

lemma length_toISOString: "iso_instant d \<Longrightarrow> length (toISOString d) = 24"
  by (simp add: toISOString_iso)

lemma iso_string_less:
  assumes "iso_instant a" and "iso_instant b"
  shows "toISOString a < toISOString b \<longleftrightarrow> fields_less a b"
proof -
  note ba = iso_instant_bounds [OF assms(1)] and bb = iso_instant_bounds [OF assms(2)]
  have ya: "0 \<le> year a" and yb: "0 \<le> year b" using assms by (simp_all add: iso_instant_def)
  have y: "nat (year a) < nat (year b) \<longleftrightarrow> year a < year b"
    "nat (year a) = nat (year b) \<longleftrightarrow> year a = year b"
    using ya yb by auto
  show ?thesis
    unfolding toISOString_iso [OF assms(1)] toISOString_iso [OF assms(2)] fields_less_def
    using pad_order [OF ba(1) bb(1)] pad_order [OF ba(2) bb(2)] pad_order [OF ba(3) bb(3)]
      pad_order [OF ba(4) bb(4)] pad_order [OF ba(5) bb(5)] pad_order [OF ba(6) bb(6)]
      pad_order [OF ba(7) bb(7)] y
    by (simp add: append_less_same_length)
qed

lemma iso_string_eq:
  assumes "iso_instant a" and "iso_instant b"
  shows "toISOString a = toISOString b \<longleftrightarrow>
     year a = year b \<and> month a = month b \<and> day a = day b \<and> hours a = hours b \<and>
     minutes a = minutes b \<and> seconds a = seconds b \<and> millis a = millis b"
proof -
  note ba = iso_instant_bounds [OF assms(1)] and bb = iso_instant_bounds [OF assms(2)]
  have ya: "0 \<le> year a" and yb: "0 \<le> year b" using assms by (simp_all add: iso_instant_def)
  have y: "nat (year a) = nat (year b) \<longleftrightarrow> year a = year b"
    using ya yb by auto
  show ?thesis
    unfolding toISOString_iso [OF assms(1)] toISOString_iso [OF assms(2)]
    using pad_order [OF ba(1) bb(1)] pad_order [OF ba(2) bb(2)] pad_order [OF ba(3) bb(3)]
      pad_order [OF ba(4) bb(4)] pad_order [OF ba(5) bb(5)] pad_order [OF ba(6) bb(6)]
      pad_order [OF ba(7) bb(7)] y
    by simp
qed

lemma div_step:
  fixes x k :: int
  assumes "0 < k"
  shows "x div k = (x - 1) div k + (if x mod k = 0 then 1 else 0)"
proof (cases "x mod k = 0")
  case True
  have "x - 1 = k * (x div k - 1) + (k - 1)"
    using True div_mult_mod_eq [of x k] by (simp add: algebra_simps)
  moreover have "0 \<le> k - 1" "k - 1 < k" using assms by simp_all
  ultimately have "(x - 1) div k = x div k - 1"
    by (rule int_div_pos_eq)
  then show ?thesis using True by simp
next
  case False
  have "0 \<le> x mod k" "x mod k < k" using assms by simp_all
  then have r: "0 \<le> x mod k - 1" "x mod k - 1 < k" using False by simp_all
  have "x - 1 = k * (x div k) + (x mod k - 1)"
    using div_mult_mod_eq [of x k] by (simp add: algebra_simps)
  then have "(x - 1) div k = x div k"
    using r by (rule int_div_pos_eq)
  then show ?thesis using False by simp
qed

lemma mod_shift: "(y - k * c) mod k = y mod (k :: int)"
  using mod_mult_self2 [of y k "- c"] by simp

lemma leap_count_step:
  fixes A B C A' B' C' :: int and p4 p100 p400 :: bool
  assumes "A' = A + (if p4 then 1 else 0)" and "B' = B + (if p100 then 1 else 0)"
    and "C' = C + (if p400 then 1 else 0)"
    and "p100 \<Longrightarrow> p4" and "p400 \<Longrightarrow> p100"
  shows "365 * (y - 1969) + A' - B' + C'
           = 365 * (y - 1970) + A - B + C + (if (p4 \<and> \<not> p100) \<or> p400 then 366 else 365)"
  using assms by (cases p4; cases p100; cases p400) simp_all

lemma day_from_year_step: "day_from_year (y + 1) = day_from_year y + days_in_year y"
proof -
  have m4: "(y - 1968) mod 4 = y mod 4" using mod_shift [of y 4 492] by simp
  have m100: "(y - 1900) mod 100 = y mod 100" using mod_shift [of y 100 19] by simp
  have m400: "(y - 1600) mod 400 = y mod 400" using mod_shift [of y 400 4] by simp
  have a: "(y - 1968) div 4 = (y - 1969) div 4 + (if y mod 4 = 0 then 1 else 0)"
    using div_step [of 4 "y - 1968"] m4 by simp
  have b: "(y - 1900) div 100 = (y - 1901) div 100 + (if y mod 100 = 0 then 1 else 0)"
    using div_step [of 100 "y - 1900"] m100 by simp
  have c: "(y - 1600) div 400 = (y - 1601) div 400 + (if y mod 400 = 0 then 1 else 0)"
    using div_step [of 400 "y - 1600"] m400 by simp
  have d1: "y mod 4 = 0" if "y mod 100 = 0"
  proof -
    have "(100::int) dvd y" using that by (simp add: mod_eq_0_iff_dvd)
    moreover have "(4::int) dvd 100" by simp
    ultimately have "4 dvd y" using dvd_trans by blast
    then show ?thesis by (simp add: mod_eq_0_iff_dvd)
  qed
  have d2: "y mod 100 = 0" if "y mod 400 = 0"
  proof -
    have "(400::int) dvd y" using that by (simp add: mod_eq_0_iff_dvd)
    moreover have "(100::int) dvd 400" by simp
    ultimately have "100 dvd y" using dvd_trans by blast
    then show ?thesis by (simp add: mod_eq_0_iff_dvd)
  qed
  have "day_from_year (y + 1)
          = 365 * (y - 1969) + (y - 1968) div 4 - (y - 1900) div 100 + (y - 1600) div 400"
    by (simp add: day_from_year_def)
  also have "\<dots> = 365 * (y - 1970) + (y - 1969) div 4 - (y - 1901) div 100 + (y - 1601) div 400
               + (if (y mod 4 = 0 \<and> \<not> y mod 100 = 0) \<or> y mod 400 = 0 then 366 else 365)"
    using a b c d1 d2 by (rule leap_count_step)
  also have "\<dots> = day_from_year y + days_in_year y"
    by (simp only: day_from_year_def days_in_year_def in_leap_year_def)
  finally show ?thesis .
qed

lemma days_in_year_pos: "0 < days_in_year y"
  by (simp add: days_in_year_def)

lemma day_from_year_mono_strict:
  assumes "y < y'"
  shows "day_from_year y + days_in_year y \<le> day_from_year y'"
proof -
  have "y + 1 \<le> y'" using assms by simp
  then show ?thesis
  proof (induction y' rule: int_ge_induct)
    case base
    then show ?case by (simp add: day_from_year_step)
  next
    case (step i)
    have "day_from_year (i + 1) = day_from_year i + days_in_year i"
      by (rule day_from_year_step)
    then show ?case using step.IH days_in_year_pos [of i] by linarith
  qed
qed

lemma month_start_next:
  assumes "1 \<le> m" and "m \<le> 12"
  shows "month_start y (Suc m) = month_start y m + days_in_month y m"
  using assms
  by (cases m rule: month_cases)
    (simp_all add: month_start_def days_in_month_def month_lengths_def)

lemma sum_list_take_mono:
  fixes xs :: "nat list"
  assumes "a \<le> b"
  shows "sum_list (take a xs) \<le> sum_list (take b xs)"
proof -
  have "take b xs = take a xs @ take (b - a) (drop a xs)"
    using assms by (metis le_add_diff_inverse take_add)
  then show ?thesis by simp
qed

lemma month_start_mono: "m \<le> m' \<Longrightarrow> month_start y m \<le> month_start y m'"
  unfolding month_start_def by (intro sum_list_take_mono) simp

lemma month_start_year: "int (month_start y 13) = days_in_year y"
  by (simp add: month_start_def month_lengths_def days_in_year_def)

text \<open>The day within the year and the time within the day.\<close>

lemma day_of_year_bound:
  assumes "valid_date d"
  shows "int (month_start (year d) (month d)) + int (day d) \<le> days_in_year (year d)"
proof -
  have m: "1 \<le> month d" "month d \<le> 12" and dd: "day d \<le> days_in_month (year d) (month d)"
    using assms by (simp_all add: valid_date_def)
  have "month_start (year d) (month d) + day d \<le> month_start (year d) (Suc (month d))"
    using month_start_next [OF m] dd by simp
  also have "\<dots> \<le> month_start (year d) 13"
    using m by (intro month_start_mono) simp
  finally have "int (month_start (year d) (month d) + day d) \<le> int (month_start (year d) 13)"
    by simp
  then show ?thesis using month_start_year [of "year d"] by simp
qed

lemma time_value_split: "time_value d = day_number d * 86400000 + time_in_day d"
  by (simp add: time_value_def)

lemma time_in_day_bounds:
  "valid_date d \<Longrightarrow> 0 \<le> time_in_day d \<and> time_in_day d < 86400000"
  by (simp add: valid_date_def time_in_day_def)

lemma day_number_less:
  assumes "valid_date a" and "valid_date b"
    and "year a < year b \<or> (year a = year b \<and>
           (month a < month b \<or> (month a = month b \<and> day a < day b)))"
  shows "day_number a < day_number b"
proof -
  have ma: "1 \<le> month a" "month a \<le> 12" and da: "1 \<le> day a" "day a \<le> days_in_month (year a) (month a)"
    using assms(1) by (simp_all add: valid_date_def)
  have db: "1 \<le> day b" using assms(2) by (simp add: valid_date_def)
  consider "year a < year b" | "year a = year b" "month a < month b"
    | "year a = year b" "month a = month b" "day a < day b"
    using assms(3) by blast
  then show ?thesis
  proof cases
    case 1
    have "day_number a < day_from_year (year a) + days_in_year (year a)"
      using day_of_year_bound [OF assms(1)] by (simp add: day_number_def)
    also have "\<dots> \<le> day_from_year (year b)"
      using 1 by (rule day_from_year_mono_strict)
    also have "\<dots> \<le> day_number b"
      using db by (simp add: day_number_def)
    finally show ?thesis .
  next
    case 2
    have "month_start (year a) (month a) + day a \<le> month_start (year a) (Suc (month a))"
      using month_start_next [OF ma] da by simp
    also have "\<dots> \<le> month_start (year a) (month b)"
      using 2 by (intro month_start_mono) simp
    finally have "month_start (year a) (month a) + day a < month_start (year b) (month b) + day b"
      using db 2 by simp
    then have "int (month_start (year a) (month a)) + int (day a)
                 < int (month_start (year b) (month b)) + int (day b)"
      by linarith
    then show ?thesis using 2 by (simp add: day_number_def)
  next
    case 3
    then show ?thesis by (simp add: day_number_def)
  qed
qed

lemma time_in_day_less:
  assumes "valid_date a" and "valid_date b"
    and "hours a < hours b \<or> (hours a = hours b \<and>
           (minutes a < minutes b \<or> (minutes a = minutes b \<and>
           (seconds a < seconds b \<or> (seconds a = seconds b \<and> millis a < millis b)))))"
  shows "time_in_day a < time_in_day b"
proof -
  have a: "minutes a < 60" "seconds a < 60" "millis a < 1000"
    using assms(1) by (simp_all add: valid_date_def)
  consider "hours a < hours b" | "hours a = hours b" "minutes a < minutes b"
    | "hours a = hours b" "minutes a = minutes b" "seconds a < seconds b"
    | "hours a = hours b" "minutes a = minutes b" "seconds a = seconds b" "millis a < millis b"
    using assms(3) by blast
  then show ?thesis
    using a by cases (simp_all add: time_in_day_def)
qed

lemma fields_less_time_value:
  assumes "valid_date a" and "valid_date b" and "fields_less a b"
  shows "time_value a < time_value b"
proof -
  have ta: "time_in_day a < 86400000" and tb: "0 \<le> time_in_day b"
    using time_in_day_bounds assms(1,2) by simp_all
  consider (date) "year a < year b \<or> (year a = year b \<and>
           (month a < month b \<or> (month a = month b \<and> day a < day b)))"
    | (time) "year a = year b" "month a = month b" "day a = day b"
       "hours a < hours b \<or> (hours a = hours b \<and>
           (minutes a < minutes b \<or> (minutes a = minutes b \<and>
           (seconds a < seconds b \<or> (seconds a = seconds b \<and> millis a < millis b)))))"
    using assms(3) unfolding fields_less_def by blast
  then show ?thesis
  proof cases
    case date
    have "day_number a + 1 \<le> day_number b"
      using day_number_less [OF assms(1,2) date] by simp
    then show ?thesis using ta tb by (simp add: time_value_split)
  next
    case time
    have "day_number a = day_number b" using time(1-3) by (simp add: day_number_def)
    then show ?thesis
      using time_in_day_less [OF assms(1,2) time(4)] by (simp add: time_value_split)
  qed
qed

lemma fields_trichotomy:
  "fields_less a b \<or> fields_less b a \<or>
     (year a = year b \<and> month a = month b \<and> day a = day b \<and> hours a = hours b \<and>
      minutes a = minutes b \<and> seconds a = seconds b \<and> millis a = millis b)"
  unfolding fields_less_def by (metis linorder_less_linear)

section \<open>Timestamps of admitted records\<close>

lemma iso_order_chronological:
  assumes "iso_instant a" and "iso_instant b"
  shows "(toISOString a < toISOString b \<longleftrightarrow> time_value a < time_value b)
       \<and> (toISOString a = toISOString b \<longleftrightarrow> time_value a = time_value b)"
proof -
  have va: "valid_date a" and vb: "valid_date b"
    using assms by (simp_all add: iso_instant_def)
  consider (lt) "fields_less a b" | (gt) "fields_less b a"
    | (eq) "year a = year b \<and> month a = month b \<and> day a = day b \<and> hours a = hours b \<and>
      minutes a = minutes b \<and> seconds a = seconds b \<and> millis a = millis b"
    using fields_trichotomy by blast
  then show ?thesis
  proof cases
    case lt
    then have "toISOString a < toISOString b" "time_value a < time_value b"
      using iso_string_less [OF assms] fields_less_time_value [OF va vb] by simp_all
    then show ?thesis by simp
  next
    case gt
    then have "toISOString b < toISOString a" "time_value b < time_value a"
      using iso_string_less [OF assms(2,1)] fields_less_time_value [OF vb va] by simp_all
    then show ?thesis by auto
  next
    case eq
    then have "toISOString a = toISOString b"
      using iso_string_eq [OF assms] by simp
    moreover have "time_value a = time_value b"
      using eq by (simp add: time_value_def day_number_def time_in_day_def)
    ultimately show ?thesis by simp
  qed
qed

lemma iso_le_chronological:
  assumes "iso_instant a" and "iso_instant b"
  shows "toISOString a \<le> toISOString b \<longleftrightarrow> time_value a \<le> time_value b"
  using iso_order_chronological [OF assms] by (auto simp: le_less)

lemma scan_handler_scans:
  "scans (fst (scan_handler key db rq)) = scans db
   \<or> scans (fst (scan_handler key db rq)) = scans db @ [scanRecord_of key rq]"
  by (auto simp: scan_handler_def Let_def insertScan_def split: sum.splits if_splits)

lemma post_scan_scans:
  "scans (fst (post_scan cfg key mm db rq)) = scans db
   \<or> scans (fst (post_scan cfg key mm db rq)) = scans db @ [scanRecord_of key rq]"
  using scan_handler_scans [of key db rq]
  by (auto simp: post_scan_def split: option.splits fraud_outcome.splits)

lemma post_scan_created:
  assumes "post_scan cfg key mm db rq = (db', Created201 r n m)"
  shows "r = scanRecord_of key rq \<and> scans db' = scans db @ [r]"
  using assms
  by (auto simp: post_scan_def scan_handler_def Let_def insertScan_def
      split: option.splits fraud_outcome.splits sum.splits if_splits)

lemma timestamp_scanRecord: "timestamp (scanRecord_of key rq) = toISOString (d_stamp rq)"
  by (simp add: scanRecord_of_def Let_def)

lemma iso_ledger_post_scan:
  assumes "iso_ledger db" and "iso_instant (d_stamp rq)"
  shows "iso_ledger (fst (post_scan cfg key mm db rq))"
proof -
  have "\<exists>d. iso_instant d \<and> timestamp (scanRecord_of key rq) = toISOString d"
    using assms(2) timestamp_scanRecord by blast
  then show ?thesis
    using post_scan_scans [of cfg key mm db rq] assms(1) by (auto simp: iso_ledger_def)
qed

lemma range_filter_chronological:
  assumes "iso_instant lo" and "iso_instant hi" and "iso_instant d"
    and "timestamp r = toISOString d"
  shows "where_clause (range_filters lo hi) r
           \<longleftrightarrow> time_value lo \<le> time_value d \<and> time_value d \<le> time_value hi"
proof -
  have "toISOString lo \<noteq> []" "toISOString hi \<noteq> []" by (simp_all add: toISOString_nonempty)
  then have "where_clause (range_filters lo hi) r
      \<longleftrightarrow> toISOString lo \<le> timestamp r \<and> timestamp r \<le> toISOString hi"
    by (simp add: where_clause_def range_filters_def no_filters_def truthy_str_def falsy_str_def
        sql_ge_def sql_le_def iso_not_numeric)
  then show ?thesis
    using assms(4) iso_le_chronological [OF assms(1,3)] iso_le_chronological [OF assms(3,2)]
    by simp
qed

lemma order_desc_chronological:
  assumes "\<forall>r \<in> set rows. iso_instant (inst r) \<and> timestamp r = toISOString (inst r)"
  shows "sorted_wrt (\<lambda>x y. time_value (inst y) \<le> time_value (inst x))
           (order_by_timestamp_desc rows)"
proof -
  have "sorted_wrt (\<lambda>x y. timestamp y \<le> timestamp x) (order_by_timestamp_desc rows)"
    by (rule order_desc_sorted)
  then show ?thesis
  proof (rule sorted_wrt_mono_rel [rotated])
    fix x y
    assume "x \<in> set (order_by_timestamp_desc rows)" "y \<in> set (order_by_timestamp_desc rows)"
      and le: "timestamp y \<le> timestamp x"
    then have x: "iso_instant (inst x)" "timestamp x = toISOString (inst x)"
      and y: "iso_instant (inst y)" "timestamp y = toISOString (inst y)"
      using assms by simp_all
    show "time_value (inst y) \<le> time_value (inst x)"
      using le iso_le_chronological [OF y(1) x(1)] x(2) y(2) by simp
  qed
qed

text \<open>
  C10. A record admitted by the pipeline carries as its timestamp the string that
  \<open>toISOString\<close> writes for the instant read at admission; for an instant with a
  four-digit year (0000 to 9999) it has 24 characters, and a ledger whose timestamps all
  have this form keeps the form under every run of the pipeline. On such strings the
  byte order of the text is the chronological order of the instants, so the inclusive
  range filter selects exactly the records whose instants lie between the bounds, and
  the descending order of the timestamps is latest first.
\<close>

theorem iso_timestamps_order:
  "(iso_instant (d_stamp rq) \<and> post_scan cfg key mm db rq = (db', Created201 r n m)
      \<longrightarrow> timestamp r = toISOString (d_stamp rq) \<and> length (timestamp r) = 24
          \<and> scans db' = scans db @ [r])
   \<and> (iso_ledger db \<and> iso_instant (d_stamp rq)
      \<longrightarrow> iso_ledger (fst (post_scan cfg key mm db rq)))
   \<and> (iso_instant a \<and> iso_instant b
      \<longrightarrow> (toISOString a \<le> toISOString b \<longleftrightarrow> time_value a \<le> time_value b)
          \<and> (toISOString a = toISOString b \<longleftrightarrow> time_value a = time_value b))
   \<and> (iso_instant lo \<and> iso_instant hi \<and> iso_instant a \<and> timestamp row = toISOString a
      \<longrightarrow> (where_clause (range_filters lo hi) row
            \<longleftrightarrow> time_value lo \<le> time_value a \<and> time_value a \<le> time_value hi))
   \<and> ((\<forall>x \<in> set rows. iso_instant (inst x) \<and> timestamp x = toISOString (inst x))
      \<longrightarrow> sorted_wrt (\<lambda>x y. time_value (inst y) \<le> time_value (inst x))
            (order_by_timestamp_desc rows))"
proof (intro conjI impI)
  assume h: "iso_instant (d_stamp rq) \<and> post_scan cfg key mm db rq = (db', Created201 r n m)"
  then have r: "r = scanRecord_of key rq \<and> scans db' = scans db @ [r]"
    using post_scan_created by blast
  then show "timestamp r = toISOString (d_stamp rq)" by (simp add: timestamp_scanRecord)
  then show "length (timestamp r) = 24" using h by (simp add: length_toISOString)
  show "scans db' = scans db @ [r]" using r by simp
next
  assume "iso_ledger db \<and> iso_instant (d_stamp rq)"
  then show "iso_ledger (fst (post_scan cfg key mm db rq))"
    using iso_ledger_post_scan by blast
next
  assume "iso_instant a \<and> iso_instant b"
  then show "toISOString a \<le> toISOString b \<longleftrightarrow> time_value a \<le> time_value b"
    using iso_le_chronological by blast
next
  assume "iso_instant a \<and> iso_instant b"
  then show "toISOString a = toISOString b \<longleftrightarrow> time_value a = time_value b"
    using iso_order_chronological by blast
next
  assume "iso_instant lo \<and> iso_instant hi \<and> iso_instant a \<and> timestamp row = toISOString a"
  then show "where_clause (range_filters lo hi) row
            \<longleftrightarrow> time_value lo \<le> time_value a \<and> time_value a \<le> time_value hi"
    using range_filter_chronological by blast
next
  assume "\<forall>x \<in> set rows. iso_instant (inst x) \<and> timestamp x = toISOString (inst x)"
  then show "sorted_wrt (\<lambda>x y. time_value (inst y) \<le> time_value (inst x))
               (order_by_timestamp_desc rows)"
    by (rule order_desc_chronological)
qed


lemma post_scan_admits_fresh:
  assumes nofault: "\<forall>s. \<not> io_fault db s"
    and fresh: "\<forall>r \<in> set (scans db). uid r \<noteq> the (body_uid (body rq))"
    and valid: "validateScanRequest (body rq) = None"
    and newid: "new_scan_id rq \<notin> set (map scan_id (scans db))"
    and lim: "0 < dailyScanLimit cfg"
  shows "\<exists>n m. post_scan cfg key mm db rq
           = (db\<lparr>scans := scans db @ [scanRecord_of key rq]\<rparr>,
              Created201 (scanRecord_of key rq) n m)"
proof -
  let ?st = "step_request cfg key mm rq"
  let ?db1 = "db\<lparr>scans := scans db @ [scanRecord_of key rq]\<rparr>"
  have s1: "?st (db, AwaitLastScanTime) = (db, AwaitDailyScanCount)"
    using nofault fresh by (intro step_last_fresh) auto
  have s2: "?st (db, AwaitDailyScanCount) = (db, AwaitInsert)"
    using nofault fresh lim by (intro step_count_fresh) auto
  have s3: "?st (db, AwaitInsert) = (?db1, AwaitTotal)"
    using nofault newid by (intro step_insert_ok) auto
  have nf1: "\<not> io_fault ?db1 SelectScans" using nofault by simp
  obtain n where s4: "?st (?db1, AwaitTotal) = (?db1, AwaitToday n)"
    using step_total_ok [OF nf1] by blast
  obtain m where s5: "?st (?db1, AwaitToday n) = (?db1, Done (Created201 (scanRecord_of key rq) n m))"
    using step_today_ok [OF nf1] by blast
  have "start_request rq = AwaitLastScanTime" using valid by (simp add: start_request_def)
  then have "(?st ^^ 5) (db, start_request rq) = (?db1, Done (Created201 (scanRecord_of key rq) n m))"
    by (simp only: funpow5 s1 s2 s3 s4 s5)
  then have "(fst (post_scan cfg key mm db rq), Done (snd (post_scan cfg key mm db rq)))
               = (?db1, Done (Created201 (scanRecord_of key rq) n m))"
    by (simp only: run_alone_post_scan)
  then have "post_scan cfg key mm db rq = (?db1, Created201 (scanRecord_of key rq) n m)"
    by (metis Pair_inject pc.inject(2) prod.collapse)
  then show ?thesis by blast
qed

lemma demo_instants: "iso_instant demo_start" "iso_instant demo_now"
  by code_simp+

lemma demo_time_values:
  "time_value demo_start = 1760868000000" "time_value demo_now = 1760868299999"
  by code_simp+

lemma demo_scan_stamp: "timestamp demo_scan = toISOString demo_start"
  by code_simp

lemma demo_later_stamp: "timestamp demo_later_scan = toISOString demo_now"
  by code_simp

theorem iso_timestamps_order_witness:
  "timestamp (scanRecord_of demo_key demo_request) = ''2025-10-19T10:00:00.000Z''
   \<and> length (timestamp (scanRecord_of demo_key demo_request)) = 24
   \<and> iso_ledger (fst (post_scan demo_cfg demo_key demo_moment demo_empty demo_request))
   \<and> toISOString demo_start \<le> toISOString demo_now
   \<and> time_value demo_start \<le> time_value demo_now
   \<and> where_clause (range_filters demo_start demo_now) demo_scan
   \<and> sorted_wrt (\<lambda>x y. time_value (demo_instant y) \<le> time_value (demo_instant x))
        (order_by_timestamp_desc [demo_scan, demo_later_scan])"
proof -
  have h: "\<forall>s. \<not> io_fault demo_empty s"
    "\<forall>r \<in> set (scans demo_empty). uid r \<noteq> the (body_uid (body demo_request))"
    "new_scan_id demo_request \<notin> set (map scan_id (scans demo_empty))"
    "0 < dailyScanLimit demo_cfg"
    by (simp_all add: demo_empty_def demo_db_def demo_cfg_values)
  obtain n m where ps:
    "post_scan demo_cfg demo_key demo_moment demo_empty demo_request
       = (demo_empty\<lparr>scans := scans demo_empty @ [scanRecord_of demo_key demo_request]\<rparr>,
          Created201 (scanRecord_of demo_key demo_request) n m)"
    using post_scan_admits_fresh [OF h(1,2) demo_request_valid h(3,4)] by blast
  have st: "d_stamp demo_request = demo_start" by (simp add: demo_request_def)
  have il: "iso_ledger demo_empty" by (simp add: iso_ledger_def demo_empty_def)
  note inst = iso_timestamps_order [of demo_request demo_cfg demo_key demo_moment demo_empty
      "demo_empty\<lparr>scans := scans demo_empty @ [scanRecord_of demo_key demo_request]\<rparr>"
      "scanRecord_of demo_key demo_request" n m demo_start demo_now demo_start demo_now demo_scan
      "[demo_scan, demo_later_scan]" demo_instant]
  have 1: "timestamp (scanRecord_of demo_key demo_request) = ''2025-10-19T10:00:00.000Z''
     \<and> length (timestamp (scanRecord_of demo_key demo_request)) = 24"
    using inst ps demo_instants st demo_stamp by simp
  have 2: "iso_ledger (fst (post_scan demo_cfg demo_key demo_moment demo_empty demo_request))"
    using inst il demo_instants st by simp
  have 3: "toISOString demo_start \<le> toISOString demo_now"
    using inst demo_instants demo_time_values by simp
  have 4: "where_clause (range_filters demo_start demo_now) demo_scan"
    using inst demo_instants demo_time_values demo_scan_stamp by simp
  have "\<forall>x \<in> set [demo_scan, demo_later_scan].
          iso_instant (demo_instant x) \<and> timestamp x = toISOString (demo_instant x)"
    using demo_instants demo_scan_stamp demo_later_stamp
    by (simp add: demo_instant_def demo_later_scan_def demo_scan_def)
  then have 5: "sorted_wrt (\<lambda>x y. time_value (demo_instant y) \<le> time_value (demo_instant x))
        (order_by_timestamp_desc [demo_scan, demo_later_scan])"
    using inst by blast
  show ?thesis using 1 2 3 4 5 demo_time_values by simp
qed

end
